theory Spec2Isabelle
  imports Main "HOL-Library.Sublist"
begin

section \<open>JavaScript strings\<close>

text \<open>
  A JavaScript string is modelled as a \<open>string\<close>, a list of 8-bit characters, each
  the code unit of that number. \<open>\d\<close> is the ten ASCII digits, as in JavaScript; \<open>\s\<close>
  and \<open>trim\<close> take the white space that has a code below 256; the letters that
  \<open>toLowerCase\<close> folds are modelled on their ASCII part. White space and letters with
  codes from 256 on are outside the model.
\<close>

definition is_digit :: "char \<Rightarrow> bool" where
  "is_digit c = (48 \<le> (of_char c :: nat) \<and> (of_char c :: nat) \<le> 57)"

definition is_space :: "char \<Rightarrow> bool" where
  \<comment> \<open>\<open>\s\<close>: tab, line feed, vertical tab, form feed, carriage return, space, and the
    no-break space U+00A0.\<close>
  "is_space c =
     ((9 \<le> (of_char c :: nat) \<and> (of_char c :: nat) \<le> 13) \<or> (of_char c :: nat) = 32
      \<or> (of_char c :: nat) = 160)"

definition lower_char :: "char \<Rightarrow> char" where
  "lower_char c =
     (if 65 \<le> (of_char c :: nat) \<and> (of_char c :: nat) \<le> 90
      then char_of ((of_char c :: nat) + 32) else c)"

definition toLowerCase :: "string \<Rightarrow> string" where
  "toLowerCase s = map lower_char s"

text \<open>\<open>s.includes(k)\<close>: \<open>k\<close> occurs in \<open>s\<close> as a contiguous run.\<close>

fun str_includes :: "string \<Rightarrow> string \<Rightarrow> bool" where
  "str_includes [] k = (k = [])"
| "str_includes (c # cs) k = (prefix k (c # cs) \<or> str_includes cs k)"

text \<open>\<open>s.trim()\<close>: white space removed at both ends.\<close>

definition trim :: "string \<Rightarrow> string" where
  "trim s = rev (dropWhile is_space (rev (dropWhile is_space s)))"

section \<open>Season and rank of a liturgical title\<close>

text \<open>\<open>extractSeason\<close>, the chain of tests as the source has it.\<close>

definition extractSeason :: "string \<Rightarrow> string" where
  "extractSeason title =
     (if title = [] then ''Unknown''
      else if str_includes title ''Advent'' then ''Advent''
      else if str_includes title ''Christmas'' then ''Christmas''
      else if str_includes title ''Lent'' then ''Lent''
      else if str_includes title ''Easter'' then ''Easter''
      else if str_includes title ''Pentecost'' then ''Pentecost''
      else if str_includes title ''Ordinary Time'' then ''Ordinary Time''
      else ''Ordinary Time'')"

text \<open>
  The specification's wording of the same function: the first keyword of an ordered
  list that occurs in the title, with the two defaults.
\<close>

definition season_keywords :: "string list" where
  "season_keywords =
     [''Advent'', ''Christmas'', ''Lent'', ''Easter'', ''Pentecost'', ''Ordinary Time'']"

definition extractSeason_spec :: "string \<Rightarrow> string" where
  "extractSeason_spec title =
     (if title = [] then ''Unknown''
      else case find (str_includes title) season_keywords of
             Some k \<Rightarrow> k
           | None \<Rightarrow> ''Ordinary Time'')"

text \<open>\<open>extractLiturgicalRank\<close>; the source never reads its second argument \<open>doc\<close>.\<close>

definition extractLiturgicalRank :: "string \<Rightarrow> string" where
  "extractLiturgicalRank title =
     (if title = [] then ''Ferial''
      else let titleLower = toLowerCase title in
        if str_includes titleLower ''solemnity'' \<or>
           str_includes titleLower ''christmas'' \<or>
           str_includes titleLower ''epiphany'' \<or>
           str_includes titleLower ''easter'' \<or>
           str_includes titleLower ''pentecost'' \<or>
           str_includes titleLower ''ascension'' \<or>
           str_includes titleLower ''assumption'' \<or>
           str_includes titleLower ''all saints'' \<or>
           str_includes titleLower ''immaculate conception''
        then ''Solemnity''
        else if str_includes titleLower ''feast'' then ''Feast''
        else if str_includes titleLower ''memorial'' then ''Memorial''
        else if str_includes titleLower ''st. '' \<or> str_includes titleLower ''saint ''
        then ''Memorial''
        else ''Ferial'')"

text \<open>
  The specification's wording: tiers in priority order, each a set of lower-case
  keywords and the rank it yields; the first tier with a keyword in the lower-cased
  title wins, and \<open>Ferial\<close> is the default.
\<close>

definition rank_tiers :: "(string list \<times> string) list" where
  "rank_tiers =
     [([''solemnity'', ''christmas'', ''epiphany'', ''easter'', ''pentecost'', ''ascension'',
        ''assumption'', ''all saints'', ''immaculate conception''], ''Solemnity''),
      ([''feast''], ''Feast''),
      ([''memorial''], ''Memorial''),
      ([''st. '', ''saint ''], ''Memorial'')]"

definition extractRank_spec :: "string \<Rightarrow> string" where
  "extractRank_spec title =
     (case find (\<lambda>tier. list_ex (str_includes (toLowerCase title)) (fst tier)) rank_tiers of
        Some tier \<Rightarrow> snd tier
      | None \<Rightarrow> ''Ferial'')"

definition ranks :: "string list" where
  "ranks = [''Solemnity'', ''Feast'', ''Memorial'', ''Ferial'']"

section \<open>The platform's numbers and dates\<close>

text \<open>
  \<open>parseInt(s, 10)\<close>: leading white space, an optional sign, then the longest run of
  decimal digits; \<open>NaN\<close> (here \<open>None\<close>) when there is no digit.
\<close>

definition digit_val :: "char \<Rightarrow> nat" where
  "digit_val c = of_char c - 48"

definition digit_char :: "nat \<Rightarrow> char" where
  "digit_char n = char_of (48 + n)"

definition parseInt :: "string \<Rightarrow> int option" where
  "parseInt s =
     (let t = dropWhile is_space s;
          neg = (case t of c # _ \<Rightarrow> c = CHR ''-'' | [] \<Rightarrow> False);
          u = (case t of c # r \<Rightarrow> if c = CHR ''-'' \<or> c = CHR ''+'' then r else t | [] \<Rightarrow> t);
          ds = takeWhile is_digit u;
          v = int (foldl (\<lambda>a c. 10 * a + digit_val c) 0 ds)
      in if ds = [] then None else Some (if neg then - v else v))"

text \<open>\<open>s.substring(a, b)\<close> for \<open>a \<le> b\<close>, the only way the source calls it.\<close>

definition substring :: "string \<Rightarrow> nat \<Rightarrow> nat \<Rightarrow> string" where
  "substring s a b = take (b - a) (drop a s)"

text \<open>\<open>String(n)\<close> of an integral number, and of \<open>NaN\<close>.\<close>

fun digits :: "nat \<Rightarrow> string" where
  "digits n = (if n < 10 then [digit_char n] else digits (n div 10) @ [digit_char (n mod 10)])"

declare digits.simps [simp del]

definition js_String :: "int option \<Rightarrow> string" where
  "js_String x =
     (case x of
        None \<Rightarrow> ''NaN''
      | Some i \<Rightarrow> if i < 0 then CHR ''-'' # digits (nat (- i)) else digits (nat i))"

definition padStart :: "string \<Rightarrow> nat \<Rightarrow> char \<Rightarrow> string" where
  "padStart s n c = replicate (n - length s) c @ s"

text \<open>\<open>s.slice(-k)\<close>: the last \<open>k\<close> characters, all of \<open>s\<close> when it is shorter.\<close>

definition slice_last :: "string \<Rightarrow> nat \<Rightarrow> string" where
  "slice_last s k = drop (length s - k) s"

text \<open>
  The calendar of ECMAScript's \<open>Date\<close>, on day numbers (days since 1 January 1970):
  \<open>DayFromYear\<close>, \<open>YearFromTime\<close>, \<open>MonthFromTime\<close>, \<open>DateFromTime\<close> and \<open>MakeDay\<close>.
  Months are numbered from 0.
\<close>

definition DayFromYear :: "int \<Rightarrow> int" where
  "DayFromYear y =
     365 * (y - 1970) + (y - 1969) div 4 - (y - 1901) div 100 + (y - 1601) div 400"

definition InLeapYear :: "int \<Rightarrow> bool" where
  "InLeapYear y =
     (if y mod 4 \<noteq> 0 then False else if y mod 100 \<noteq> 0 then True else y mod 400 = 0)"

definition leap_days :: "int \<Rightarrow> int" where
  "leap_days y = (if InLeapYear y then 1 else 0)"

text \<open>A year has 365 days and its leap day: the first days of the years increase.\<close>

lemma div_step:
  fixes a k :: int
  assumes "0 < k"
  shows "(a + 1) div k = a div k + (if (a + 1) mod k = 0 then 1 else 0)"
proof -
  let ?q = "a div k" and ?r = "a mod k"
  have a: "k * ?q + ?r = a"
    by (rule mult_div_mod_eq)
  have r: "0 \<le> ?r" "?r < k"
    using assms by simp_all
  show ?thesis
  proof (cases "?r + 1 = k")
    case True
    have "k * (?q + 1) = k * ?q + k"
      by (simp add: distrib_left)
    with a True have e: "a + 1 = k * (?q + 1) + 0"
      by linarith
    have "(a + 1) div k = ?q + 1"
      by (rule int_div_pos_eq [OF e]) (use assms in simp_all)
    moreover have "(a + 1) mod k = 0"
      by (rule int_mod_pos_eq [OF e]) (use assms in simp_all)
    ultimately show ?thesis
      by simp
  next
    case False
    with r have lt: "?r + 1 < k"
      by simp
    from a have e: "a + 1 = k * ?q + (?r + 1)"
      by linarith
    have "(a + 1) div k = ?q"
      by (rule int_div_pos_eq [OF e]) (use r lt in simp_all)
    moreover have "(a + 1) mod k = ?r + 1"
      by (rule int_mod_pos_eq [OF e]) (use r lt in simp_all)
    ultimately show ?thesis
      using r by simp
  qed
qed

lemma DayFromYear_Suc: "DayFromYear (y + 1) = DayFromYear y + 365 + leap_days y"
proof -
  have s4: "(y + 1 - 1969) div 4 = (y - 1969) div 4 + (if y mod 4 = 0 then 1 else 0)"
  proof -
    have "(y - 1969 + 1) mod 4 = (y + 4 * (- 492)) mod 4" by simp
    also have "\<dots> = y mod 4" by (rule mod_mult_self2)
    finally show ?thesis
      using div_step [of 4 "y - 1969"] by (simp add: algebra_simps)
  qed
  have s100: "(y + 1 - 1901) div 100 = (y - 1901) div 100 + (if y mod 100 = 0 then 1 else 0)"
  proof -
    have "(y - 1901 + 1) mod 100 = (y + 100 * (- 19)) mod 100" by simp
    also have "\<dots> = y mod 100" by (rule mod_mult_self2)
    finally show ?thesis
      using div_step [of 100 "y - 1901"] by (simp add: algebra_simps)
  qed
  have s400: "(y + 1 - 1601) div 400 = (y - 1601) div 400 + (if y mod 400 = 0 then 1 else 0)"
  proof -
    have "(y - 1601 + 1) mod 400 = (y + 400 * (- 4)) mod 400" by simp
    also have "\<dots> = y mod 400" by (rule mod_mult_self2)
    finally show ?thesis
      using div_step [of 400 "y - 1601"] by (simp add: algebra_simps)
  qed
  have d1: "y mod 4 = 0" if "y mod 100 = 0"
  proof -
    from that have "100 dvd y" by (simp add: mod_eq_0_iff_dvd)
    moreover have "(4::int) dvd 100" by simp
    ultimately have "4 dvd y" by (rule dvd_trans [rotated])
    then show ?thesis by (simp add: mod_eq_0_iff_dvd)
  qed
  have d2: "y mod 100 = 0" if "y mod 400 = 0"
  proof -
    from that have "400 dvd y" by (simp add: mod_eq_0_iff_dvd)
    moreover have "(100::int) dvd 400" by simp
    ultimately have "100 dvd y" by (rule dvd_trans [rotated])
    then show ?thesis by (simp add: mod_eq_0_iff_dvd)
  qed
  show ?thesis
    unfolding DayFromYear_def leap_days_def InLeapYear_def s4 s100 s400
    using d1 d2 by auto
qed

lemma DayFromYear_less: "DayFromYear (y - 1) < DayFromYear y"
  using DayFromYear_Suc [of "y - 1"] by (simp add: leap_days_def)

text \<open>
  \<open>YearFromTime\<close> is the largest year whose first day is not after the given day. The
  search steps down from an estimate to a year that starts early enough, then up to the
  last such year.
\<close>

function year_down :: "int \<Rightarrow> int \<Rightarrow> int" where
  "year_down n y = (if n < DayFromYear y then year_down n (y - 1) else y)"
  by pat_completeness auto
termination
proof (relation "measure (\<lambda>(n, y). nat (DayFromYear y - n))")
  show "wf (measure (\<lambda>(n, y). nat (DayFromYear y - n)))"
    by simp
next
  fix n y :: int
  assume "n < DayFromYear y"
  moreover have "DayFromYear (y - 1) < DayFromYear y"
    by (rule DayFromYear_less)
  ultimately show "((n, y - 1), (n, y)) \<in> measure (\<lambda>(n, y). nat (DayFromYear y - n))"
    by simp
qed

function year_up :: "int \<Rightarrow> int \<Rightarrow> int" where
  "year_up n y = (if DayFromYear (y + 1) \<le> n then year_up n (y + 1) else y)"
  by pat_completeness auto
termination
proof (relation "measure (\<lambda>(n, y). nat (n + 1 - DayFromYear (y + 1)))")
  show "wf (measure (\<lambda>(n, y). nat (n + 1 - DayFromYear (y + 1))))"
    by simp
next
  fix n y :: int
  assume "DayFromYear (y + 1) \<le> n"
  moreover have "DayFromYear (y + 1) < DayFromYear (y + 1 + 1)"
    using DayFromYear_Suc [of "y + 1"] by (simp add: leap_days_def)
  ultimately show
    "((n, y + 1), (n, y)) \<in> measure (\<lambda>(n, y). nat (n + 1 - DayFromYear (y + 1)))"
    by simp
qed

declare year_down.simps [simp del] year_up.simps [simp del]

definition YearFromDay :: "int \<Rightarrow> int" where
  "YearFromDay n = year_up n (year_down n (1970 + n div 365))"

definition DayWithinYear :: "int \<Rightarrow> int" where
  "DayWithinYear n = n - DayFromYear (YearFromDay n)"

text \<open>The day within the year on which month \<open>m\<close> (0 to 11) starts.\<close>

definition month_start :: "int \<Rightarrow> int \<Rightarrow> int" where
  "month_start L m =
     (if m = 0 then 0 else if m = 1 then 31 else if m = 2 then 59 + L
      else if m = 3 then 90 + L else if m = 4 then 120 + L else if m = 5 then 151 + L
      else if m = 6 then 181 + L else if m = 7 then 212 + L else if m = 8 then 243 + L
      else if m = 9 then 273 + L else if m = 10 then 304 + L else 334 + L)"

definition MonthFromDay :: "int \<Rightarrow> int" where
  "MonthFromDay n =
     (let d = DayWithinYear n; L = leap_days (YearFromDay n) in
      if d < 31 then 0 else if d < 59 + L then 1 else if d < 90 + L then 2
      else if d < 120 + L then 3 else if d < 151 + L then 4 else if d < 181 + L then 5
      else if d < 212 + L then 6 else if d < 243 + L then 7 else if d < 273 + L then 8
      else if d < 304 + L then 9 else if d < 334 + L then 10 else 11)"

definition DateFromDay :: "int \<Rightarrow> int" where
  "DateFromDay n =
     DayWithinYear n - month_start (leap_days (YearFromDay n)) (MonthFromDay n) + 1"

definition MakeDay :: "int \<Rightarrow> int \<Rightarrow> int \<Rightarrow> int" where
  "MakeDay year month date =
     (let ym = year + month div 12; mn = month mod 12
      in DayFromYear ym + month_start (leap_days ym) mn + date - 1)"

text \<open>
  A \<open>Date\<close> is modelled by the day number of its local time, \<open>None\<close> for an Invalid
  Date (time value \<open>NaN\<close>). \<open>new Date(year, monthIndex, day)\<close> is local midnight of
  \<open>MakeDay\<close>; years 0 to 99 mean 1900 to 1999; a \<open>NaN\<close> argument, or a time value
  beyond 8.64e15 milliseconds from the epoch, gives an Invalid Date. The time zone is
  left out: local midnight of a day is taken to lie on that day. That holds in every zone
  whose clock changes skip less than a day; where the zone skipped a whole calendar day
  (Pacific/Apia and Pacific/Fakaofo have no 30 December 2011) the platform gives the
  next day for that one date, and the model does not.
\<close>

type_synonym Date = "int option"

definition new_Date :: "int option \<Rightarrow> int option \<Rightarrow> int option \<Rightarrow> Date" where
  "new_Date year monthIndex day =
     (case (year, monthIndex, day) of
        (Some y, Some m, Some d) \<Rightarrow>
          (let yr = (if 0 \<le> y \<and> y \<le> 99 then 1900 + y else y);
               n = MakeDay yr m d
           in if \<bar>n * 86400000\<bar> > 8640000000000000 then None else Some n)
      | _ \<Rightarrow> None)"

definition getFullYear :: "Date \<Rightarrow> int option" where
  "getFullYear date = map_option YearFromDay date"

definition getMonth :: "Date \<Rightarrow> int option" where
  "getMonth date = map_option MonthFromDay date"

definition getDate :: "Date \<Rightarrow> int option" where
  "getDate date = map_option DateFromDay date"

text \<open>\<open>isNaN(date.getTime())\<close>\<close>

definition isNaN_getTime :: "Date \<Rightarrow> bool" where
  "isNaN_getTime date = (date = None)"

section \<open>The date codec\<close>

text \<open>
  The source throws \<open>Error\<close> objects that differ in their message, and the platform
  throws its own; each is a constructor here, named after the error kinds of the
  specification where it has one:
  \<^item> \<open>FormatError\<close>: "Date must be in MMDDYY format";
  \<^item> \<open>InvalidDateError\<close>: "Invalid date values";
  \<^item> \<open>ArgumentError\<close>: "Date must be a Date object or MMDDYY string";
  \<^item> \<open>HttpError status\<close>: "HTTP status", a response that is not ok;
  \<^item> \<open>NetworkError\<close>: \<open>fetch\<close> rejected;
  \<^item> \<open>ReferenceError\<close>: \<open>DOMParser\<close> is not defined;
  \<^item> \<open>RangeError\<close>: \<open>toISOString\<close> of an Invalid Date;
  \<^item> \<open>TimeoutError\<close>: "Network request timed out across proxies";
  \<^item> \<open>AllRoutesFailedError\<close>: "All CORS proxies failed or were blocked";
  \<^item> \<open>TimedOutMessage\<close>: "Network request timed out (CORS proxies may be slow or
    unavailable)";
  \<^item> \<open>UnableToFetchMessage\<close>: "Unable to fetch readings (CORS or network error)".
\<close>

datatype error =
    FormatError | InvalidDateError | ArgumentError
  | HttpError nat | NetworkError | ReferenceError | RangeError
  | TimeoutError | AllRoutesFailedError
  | TimedOutMessage | UnableToFetchMessage

text \<open>The \<open>name\<close> property of each error object.\<close>

fun error_name :: "error \<Rightarrow> string" where
  "error_name ReferenceError = ''ReferenceError''"
| "error_name RangeError = ''RangeError''"
| "error_name NetworkError = ''TypeError''"
| "error_name _ = ''Error''"

text \<open>The test \<open>/^\d{6}$/\<close>: the whole string is six decimal digits.\<close>

definition six_digits :: "string \<Rightarrow> bool" where
  "six_digits s = (length s = 6 \<and> list_all is_digit s)"

definition formatDateForUrl :: "Date \<Rightarrow> string" where
  "formatDateForUrl date =
     (let month = padStart (js_String (map_option (\<lambda>m. m + 1) (getMonth date))) 2 CHR ''0'';
          day = padStart (js_String (getDate date)) 2 CHR ''0'';
          year = slice_last (js_String (getFullYear date)) 2
      in month @ day @ year)"

definition parseDateString :: "string \<Rightarrow> error + Date" where
  "parseDateString dateStr =
     (if \<not> six_digits dateStr then Inl FormatError
      else
        let month = parseInt (substring dateStr 0 2);
            day = parseInt (substring dateStr 2 4);
            year = parseInt (''20'' @ substring dateStr 4 6);
            date = new_Date year (map_option (\<lambda>m. m - 1) month) day
        in if isNaN_getTime date then Inl InvalidDateError else Inr date)"

text \<open>
  The keys of the dates that exist: six digits \<open>MMDDYY\<close> with a month from 1 to 12 and
  a day from 1 to the length of that month in the year \<open>20YY\<close>.
\<close>

definition days_in_month :: "int \<Rightarrow> int \<Rightarrow> int" where
  "days_in_month y m =
     (if m = 2 then 28 + leap_days y
      else if m = 4 \<or> m = 6 \<or> m = 9 \<or> m = 11 then 30 else 31)"

definition key_month :: "string \<Rightarrow> int" where
  "key_month k = int (10 * digit_val (k ! 0) + digit_val (k ! 1))"

definition key_day :: "string \<Rightarrow> int" where
  "key_day k = int (10 * digit_val (k ! 2) + digit_val (k ! 3))"

definition key_year :: "string \<Rightarrow> int" where
  "key_year k = 2000 + int (10 * digit_val (k ! 4) + digit_val (k ! 5))"

definition valid_key :: "string \<Rightarrow> bool" where
  "valid_key k =
     (six_digits k \<and> 1 \<le> key_month k \<and> key_month k \<le> 12 \<and> 1 \<le> key_day k
      \<and> key_day k \<le> days_in_month (key_year k) (key_month k))"

section \<open>The page parser\<close>

text \<open>
  \<open>DOMParser\<close> and the selector queries belong to the platform. A document is modelled
  by what the source's queries find in it: the text of the title heading
  (\<open>.wr-block.b-lectionary h2\<close>), the text of the lectionary paragraph
  (\<open>.wr-block.b-lectionary p\<close>) and the verse blocks (\<open>.wr-block.b-verse\<close>) in document
  order. A verse block is modelled by the text of its name label, its address element
  with the first link inside it, and its content body as the \<open>innerHTML\<close> of each of its
  paragraphs; \<open>None\<close> is a query that finds nothing.
\<close>

record anchor =
  textContent :: string
  href :: string

record block =
  nameElement :: "string option"
  addressElement :: "anchor option option"
  contentElement :: "string list option"

record document =
  titleElement :: "string option"
  lectElement :: "string option"
  verseBlocks :: "block list"

record reading =
  name :: string
  reference :: string
  referenceUrl :: string
  reading_text :: string

record dailyReadings =
  date :: string
  displayDate :: string
  title :: string
  season :: string
  rank :: string
  lectionary :: string
  readings :: "reading list"

definition newline :: char where
  "newline = CHR 0x0A"

text \<open>
  A match of \<open>/<br\s*\/?>/i\<close> at the head of the string: what follows the match.
\<close>

fun match_br :: "string \<Rightarrow> string option" where
  "match_br (c1 # c2 # c3 # r) =
     (if c1 = CHR ''<'' \<and> lower_char c2 = CHR ''b'' \<and> lower_char c3 = CHR ''r''
      then (case dropWhile is_space r of
              [] \<Rightarrow> None
            | x # t \<Rightarrow>
                if x = CHR ''>'' then Some t
                else if x = CHR ''/'' then
                  (case t of [] \<Rightarrow> None | y # u \<Rightarrow> if y = CHR ''>'' then Some u else None)
                else None)
      else None)"
| "match_br _ = None"

lemma match_br_shorter: "match_br s = Some t \<Longrightarrow> length t < length s"
proof (induction s rule: match_br.induct)
  case (1 c1 c2 c3 r)
  have "length (dropWhile is_space r) \<le> length r"
    by (rule length_dropWhile_le)
  with "1.prems" show ?case
    by (auto split: if_splits list.splits)
qed simp_all

text \<open>\<open>.replace(/<br\s*\/?>/gi, '\n')\<close>\<close>

function replace_br :: "string \<Rightarrow> string" where
  "replace_br [] = []"
| "replace_br (c # cs) =
     (case match_br (c # cs) of
        Some rest \<Rightarrow> newline # replace_br rest
      | None \<Rightarrow> c # replace_br cs)"
  by pat_completeness auto
termination
  by (relation "measure length") (auto dest: match_br_shorter)

text \<open>
  \<open>.replace(/<[^>]*>/g, '')\<close>: from a \<open><\<close> to the next \<open>>\<close>; a \<open><\<close> with no
  \<open>>\<close> after it stays.
\<close>

function strip_tags :: "string \<Rightarrow> string" where
  "strip_tags [] = []"
| "strip_tags (c # cs) =
     (if c = CHR ''<'' \<and> CHR ''>'' \<in> set cs
      then strip_tags (tl (dropWhile (\<lambda>x. x \<noteq> CHR ''>'') cs))
      else c # strip_tags cs)"
  by pat_completeness auto
termination
proof (relation "measure length")
  show "wf (measure length)"
    by simp
next
  fix c :: char and cs :: string
  have "length (tl (dropWhile (\<lambda>x. x \<noteq> CHR ''>'') cs)) \<le> length cs"
    using length_dropWhile_le [of "\<lambda>x. x \<noteq> CHR ''>''" cs] by simp
  then show "(tl (dropWhile (\<lambda>x. x \<noteq> CHR ''>'') cs), c # cs) \<in> measure length"
    by simp
next
  fix c :: char and cs :: string
  show "(cs, c # cs) \<in> measure length"
    by simp
qed

text \<open>\<open>texts.join(sep)\<close>\<close>

fun join :: "string \<Rightarrow> string list \<Rightarrow> string" where
  "join sep [] = []"
| "join sep [t] = t"
| "join sep (t # u # ts) = t @ sep @ join sep (u # ts)"

text \<open>
  \<open>extractTextContent\<close>. The source first rewrites a copy of the element's
  \<open>innerHTML\<close> that it never reads again; the result is built from the paragraphs.
\<close>

definition extractTextContent :: "string list \<Rightarrow> string" where
  "extractTextContent paragraphs =
     join [newline, newline]
       (filter (\<lambda>t. t \<noteq> [])
          (map (\<lambda>p. trim (strip_tags (replace_br p))) paragraphs))"

definition extractTitle :: "document \<Rightarrow> string" where
  "extractTitle doc = (case titleElement doc of Some t \<Rightarrow> trim t | None \<Rightarrow> [])"

text \<open>
  The first match of \<open>/Lectionary:\s*(\d+)/\<close>: its group of digits.
\<close>

fun match_lectionary :: "string \<Rightarrow> string option" where
  "match_lectionary [] = None"
| "match_lectionary (c # cs) =
     (let ds = takeWhile is_digit (dropWhile is_space (drop 11 (c # cs)))
      in if prefix ''Lectionary:'' (c # cs) \<and> ds \<noteq> [] then Some ds
         else match_lectionary cs)"

definition extractLectionary :: "document \<Rightarrow> string" where
  "extractLectionary doc =
     (case lectElement doc of
        Some t \<Rightarrow> (case match_lectionary t of Some ds \<Rightarrow> ds | None \<Rightarrow> [])
      | None \<Rightarrow> [])"

text \<open>
  \<open>parseReadingBlock\<close>: \<open>None\<close> is the source's \<open>null\<close>. The reference link is the
  first link of the address element, \<open>addressElement?.querySelector('a')\<close>.
\<close>

definition referenceLink :: "block \<Rightarrow> anchor option" where
  "referenceLink b = (case addressElement b of Some l \<Rightarrow> l | None \<Rightarrow> None)"

definition parseReadingBlock :: "block \<Rightarrow> reading option" where
  "parseReadingBlock b =
     (if nameElement b = None \<or> contentElement b = None then None
      else Some \<lparr>
        name = trim (the (nameElement b)),
        reference = (case referenceLink b of Some l \<Rightarrow> trim (textContent l) | None \<Rightarrow> []),
        referenceUrl = (case referenceLink b of Some l \<Rightarrow> href l | None \<Rightarrow> []),
        reading_text = extractTextContent (the (contentElement b)) \<rparr>)"

text \<open>
  The loop of \<open>parseReadings\<close> over the verse blocks: each block is parsed, and the
  reading is pushed when it is not \<open>null\<close>.
\<close>

fun collect_readings :: "block list \<Rightarrow> reading list" where
  "collect_readings [] = []"
| "collect_readings (b # bs) =
     (case parseReadingBlock b of
        Some r \<Rightarrow> r # collect_readings bs
      | None \<Rightarrow> collect_readings bs)"

section \<open>The environment, the cache and the service\<close>

text \<open>
  What the platform gives the service, as parameters: whether \<open>window\<close> is defined and
  \<open>window.localStorage\<close> can be used, which \<open>setItem\<close> and \<open>getItem\<close> calls throw,
  \<open>JSON.parse\<close> and \<open>JSON.stringify\<close> (\<open>None\<close> when they throw), the outcome of the
  direct request and of the race through the proxies for each URL, \<open>DOMParser\<close> when it
  is defined, and the two date formats of the platform. \<open>JSON.parse\<close> gives \<open>null\<close>,
  another falsy value, or a truthy value, which is taken to be a readings object.
\<close>

datatype parsed = PNull | PFalsy | PTruthy dailyReadings

type_synonym storage = "string \<rightharpoonup> string"

record env =
  has_window :: bool
  has_localStorage :: bool
  setItem_throws :: "storage \<Rightarrow> string \<Rightarrow> string \<Rightarrow> bool"
  getItem_throws :: "string \<Rightarrow> bool"
  JSON_parse :: "string \<Rightarrow> parsed option"
  JSON_stringify :: "dailyReadings \<Rightarrow> string option"
  fetchUrl :: "string \<Rightarrow> error + string"
  fetchViaProxies :: "string \<Rightarrow> nat \<Rightarrow> error + string"
  DOMParser :: "(string \<Rightarrow> document) option"
  toISOString_date :: "int \<Rightarrow> string"
  toLocaleDateString :: "int \<Rightarrow> string"

text \<open>The state of the service: the in-memory cache and the page's \<open>localStorage\<close>.\<close>

record state =
  cache :: "string \<rightharpoonup> dailyReadings"
  localStorage :: storage

definition baseUrl :: string where
  "baseUrl = ''https://bible.usccb.org/bible/readings''"

definition timeout :: nat where
  "timeout = 6000"

definition parseReadings :: "env \<Rightarrow> string \<Rightarrow> Date \<Rightarrow> error + dailyReadings" where
  "parseReadings e html d =
     (case DOMParser e of
        None \<Rightarrow> Inl ReferenceError
      | Some parseFromString \<Rightarrow>
          (let doc = parseFromString html;
               title = extractTitle doc
           in case d of
                None \<Rightarrow> Inl RangeError
              | Some n \<Rightarrow> Inr \<lparr>
                  date = toISOString_date e n,
                  displayDate = toLocaleDateString e n,
                  title = title,
                  season = extractSeason title,
                  rank = extractLiturgicalRank title,
                  lectionary = extractLectionary doc,
                  readings = collect_readings (verseBlocks doc) \<rparr>))"

text \<open>
  \<open>storageAvailable\<close> probes the store: it sets and removes the key \<open>__cr_test__\<close>,
  and answers false when the store is missing or the probe throws.
\<close>

definition storageAvailable :: "env \<Rightarrow> state \<Rightarrow> bool \<times> state" where
  "storageAvailable e st =
     (if \<not> has_window e \<or> \<not> has_localStorage e then (False, st)
      else if setItem_throws e (localStorage st) ''__cr_test__'' ''1'' then (False, st)
      else (True, st\<lparr>localStorage := (localStorage st)(''__cr_test__'' := None)\<rparr>))"

definition storage_key :: "string \<Rightarrow> string" where
  "storage_key key = ''CathReadings:'' @ key"

definition readFromPersistentCache :: "env \<Rightarrow> state \<Rightarrow> string \<Rightarrow> parsed \<times> state" where
  "readFromPersistentCache e st key =
     (case storageAvailable e st of
        (False, st1) \<Rightarrow> (PNull, st1)
      | (True, st1) \<Rightarrow>
          if getItem_throws e (storage_key key) then (PNull, st1)
          else (case localStorage st1 (storage_key key) of
                  None \<Rightarrow> (PNull, st1)
                | Some raw \<Rightarrow>
                    if raw = [] then (PNull, st1)
                    else (case JSON_parse e raw of
                            None \<Rightarrow> (PNull, st1)
                          | Some v \<Rightarrow> (v, st1))))"

definition writeToPersistentCache :: "env \<Rightarrow> state \<Rightarrow> string \<Rightarrow> dailyReadings \<Rightarrow> state" where
  "writeToPersistentCache e st key v =
     (case storageAvailable e st of
        (False, st1) \<Rightarrow> st1
      | (True, st1) \<Rightarrow>
          (case JSON_stringify e v of
             None \<Rightarrow> st1
           | Some raw \<Rightarrow>
               if setItem_throws e (localStorage st1) (storage_key key) raw then st1
               else st1\<lparr>localStorage := (localStorage st1)(storage_key key \<mapsto> raw)\<rparr>))"

text \<open>The argument of \<open>getReadings\<close>: a string, a \<open>Date\<close>, or anything else.\<close>

datatype arg = StringArg string | DateArg Date | OtherArg

definition normalize_arg :: "arg \<Rightarrow> error + string \<times> Date" where
  "normalize_arg a =
     (case a of
        StringArg s \<Rightarrow> (case parseDateString s of Inl err \<Rightarrow> Inl err | Inr d \<Rightarrow> Inr (s, d))
      | DateArg d \<Rightarrow> Inr (formatDateForUrl d, d)
      | OtherArg \<Rightarrow> Inl ArgumentError)"

text \<open>
  The fallback of \<open>getReadings\<close> through the proxies, taken in a browser after the direct
  request or its parsing has thrown.
\<close>

definition fetch_via_proxies_and_parse ::
  "env \<Rightarrow> state \<Rightarrow> string \<Rightarrow> Date \<Rightarrow> string \<Rightarrow> (error + dailyReadings) \<times> state" where
  "fetch_via_proxies_and_parse e st dateStr d url =
     (let attempt =
            (case fetchViaProxies e url timeout of
               Inl err \<Rightarrow> Inl err
             | Inr html \<Rightarrow> parseReadings e html d)
      in case attempt of
           Inr result \<Rightarrow>
             (Inr result,
              writeToPersistentCache e (st\<lparr>cache := (cache st)(dateStr \<mapsto> result)\<rparr>)
                dateStr result)
         | Inl proxyError \<Rightarrow>
             (Inl (if error_name proxyError = ''AbortError'' then TimedOutMessage
                   else UnableToFetchMessage), st))"

text \<open>
  \<open>getReadings\<close> after both cache tiers have missed: the direct request, and on a
  throw the fallback when \<open>window\<close> is defined, the same error again when it is not.
\<close>

definition fetch_and_parse ::
  "env \<Rightarrow> state \<Rightarrow> string \<Rightarrow> Date \<Rightarrow> (error + dailyReadings) \<times> state" where
  "fetch_and_parse e st dateStr d =
     (let url = baseUrl @ ''/'' @ dateStr @ ''.cfm'';
          attempt =
            (case fetchUrl e url of
               Inl err \<Rightarrow> Inl err
             | Inr html \<Rightarrow> parseReadings e html d)
      in case attempt of
           Inr result \<Rightarrow> (Inr result, st\<lparr>cache := (cache st)(dateStr \<mapsto> result)\<rparr>)
         | Inl err \<Rightarrow>
             if has_window e then fetch_via_proxies_and_parse e st dateStr d url
             else (Inl err, st))"

definition getReadings :: "env \<Rightarrow> state \<Rightarrow> arg \<Rightarrow> (error + dailyReadings) \<times> state" where
  "getReadings e st a =
     (case normalize_arg a of
        Inl err \<Rightarrow> (Inl err, st)
      | Inr (dateStr, d) \<Rightarrow>
          (case cache st dateStr of
             Some cached \<Rightarrow> (Inr cached, st)
           | None \<Rightarrow>
               (case readFromPersistentCache e st dateStr of
                  (PTruthy persisted, st1) \<Rightarrow>
                    (Inr persisted, st1\<lparr>cache := (cache st1)(dateStr \<mapsto> persisted)\<rparr>)
                | (_, st1) \<Rightarrow> fetch_and_parse e st1 dateStr d)))"

text \<open>
  The durable entry of a key cannot be read: \<open>getItem\<close> throws, or the stored text
  is not JSON, or the probe of the store fails.
\<close>

definition durable_unreadable :: "env \<Rightarrow> state \<Rightarrow> string \<Rightarrow> bool" where
  "durable_unreadable e st key =
     (getItem_throws e (storage_key key)
      \<or> (case localStorage st (storage_key key) of
            None \<Rightarrow> False
          | Some raw \<Rightarrow> raw \<noteq> [] \<and> JSON_parse e raw = None)
      \<or> \<not> fst (storageAvailable e st))"

section \<open>The race through the proxies\<close>

text \<open>
  \<open>fetchViaProxies\<close> runs on the event loop: its callbacks run one at a time, in an
  order the network and the timers decide. The race is a state and a step per callback:
  \<^item> \<open>Start i\<close>: the staggered timer of route \<open>i\<close> fires;
  \<^item> \<open>Succeed i body\<close>: the request of route \<open>i\<close> has answered with an ok status and
    its body has been read, and the code after the two \<open>await\<close>s runs;
  \<^item> \<open>Fail i\<close>: the request of route \<open>i\<close> was rejected, or its status was not ok, or
    reading its body was rejected, and the \<open>catch\<close> block runs;
  \<^item> \<open>Deadline\<close>: the global timer fires.

  The state holds the variables \<open>settled\<close> and \<open>failures\<close>, the promise that
  \<open>fetchViaProxies\<close> returns (a promise keeps the first \<open>resolve\<close> or \<open>reject\<close> and
  ignores the later ones), whether the global timer is still set, where each route stands,
  and which controllers have been aborted.
\<close>

text \<open>
  The routes: \<open>buildProxyUrls\<close> wraps the target URL once per proxy candidate, and the
  race starts with one route per proxy URL. \<open>encodeURIComponent\<close> is the platform's.
\<close>

definition proxyCandidates :: "(string \<Rightarrow> string) \<Rightarrow> (string \<Rightarrow> string) list" where
  "proxyCandidates encodeURIComponent =
     [\<lambda>u. ''https://cors.isomorphic-git.org/'' @ u,
      \<lambda>u. ''https://api.allorigins.win/raw?url='' @ encodeURIComponent u,
      \<lambda>u. ''https://api.codetabs.com/v1/proxy?quest='' @ encodeURIComponent u,
      \<lambda>u. ''https://thingproxy.freeboard.io/fetch/'' @ u]"

definition buildProxyUrls :: "(string \<Rightarrow> string) \<Rightarrow> string \<Rightarrow> string list" where
  "buildProxyUrls encodeURIComponent url = map (\<lambda>fn. fn url) (proxyCandidates encodeURIComponent)"

datatype route_status = Waiting | InFlight | Done

datatype event = Start nat | Succeed nat string | Fail nat | Deadline

record race =
  settled :: bool
  failures :: nat
  promise :: "(error + string) option"
  globalTimer :: bool
  routes :: "route_status list"
  aborted :: "bool list"

definition fetchViaProxies_init :: "nat \<Rightarrow> race" where
  "fetchViaProxies_init n =
     \<lparr>settled = False, failures = 0, promise = None, globalTimer = True,
      routes = replicate n Waiting, aborted = replicate n False\<rparr>"

definition fetchViaProxies_start :: "(string \<Rightarrow> string) \<Rightarrow> string \<Rightarrow> race" where
  "fetchViaProxies_start encodeURIComponent url =
     fetchViaProxies_init (length (buildProxyUrls encodeURIComponent url))"

text \<open>\<open>resolve(text)\<close> and \<open>reject(error)\<close>: only the first call settles the promise.\<close>

definition settle :: "error + string \<Rightarrow> race \<Rightarrow> race" where
  "settle v r = (if promise r = None then r\<lparr>promise := Some v\<rparr> else r)"

text \<open>\<open>controllers.forEach((c, j) => { if (j !== i) c.abort() })\<close>\<close>

definition abort_others :: "nat \<Rightarrow> bool list \<Rightarrow> bool list" where
  "abort_others i cs = map (\<lambda>j. if j \<noteq> i then True else cs ! j) [0..<length cs]"

fun race_step :: "race \<Rightarrow> event \<Rightarrow> race" where
  "race_step r (Start i) =
     (if settled r then r\<lparr>routes := (routes r)[i := Done]\<rparr>
      else r\<lparr>routes := (routes r)[i := InFlight]\<rparr>)"
| "race_step r (Succeed i body) =
     (let r1 = r\<lparr>routes := (routes r)[i := Done]\<rparr>
      in if settled r1 then r1
         else settle (Inr body)
                (r1\<lparr>settled := True, globalTimer := False,
                    aborted := abort_others i (aborted r1)\<rparr>))"
| "race_step r (Fail i) =
     (let r1 = r\<lparr>routes := (routes r)[i := Done], failures := failures r + 1\<rparr>
      in if failures r1 = length (routes r1) \<and> \<not> settled r1
         then settle (Inl AllRoutesFailedError) (r1\<lparr>globalTimer := False\<rparr>)
         else r1)"
| "race_step r Deadline =
     (let r1 = r\<lparr>globalTimer := False\<rparr>
      in if \<not> settled r1
         then settle (Inl TimeoutError)
                (r1\<lparr>aborted := replicate (length (aborted r1)) True\<rparr>)
         else r1)"

text \<open>
  What the platform can deliver: a route starts once, answers once and only after it has
  started, cannot answer with success once its controller is aborted, and a cleared timer
  does not fire.
\<close>

fun enabled :: "race \<Rightarrow> event \<Rightarrow> bool" where
  "enabled r (Start i) = (i < length (routes r) \<and> routes r ! i = Waiting)"
| "enabled r (Succeed i body) =
     (i < length (routes r) \<and> routes r ! i = InFlight \<and> \<not> aborted r ! i)"
| "enabled r (Fail i) = (i < length (routes r) \<and> routes r ! i = InFlight)"
| "enabled r Deadline = globalTimer r"

fun run :: "race \<Rightarrow> event list \<Rightarrow> race" where
  "run r [] = r"
| "run r (ev # evs) = run (race_step r ev) evs"

fun feasible :: "race \<Rightarrow> event list \<Rightarrow> bool" where
  "feasible r [] = True"
| "feasible r (ev # evs) = (enabled r ev \<and> feasible (race_step r ev) evs)"

fun is_Succeed :: "event \<Rightarrow> bool" where
  "is_Succeed (Succeed i body) = True"
| "is_Succeed _ = False"

text \<open>Schedules in which no route succeeds and the global timer does not fire.\<close>

definition only_failures :: "event list \<Rightarrow> bool" where
  "only_failures evs = list_all (\<lambda>ev. \<not> is_Succeed ev \<and> ev \<noteq> Deadline) evs"

text \<open>Schedules in which each of the \<open>n\<close> routes fails.\<close>

definition all_routes_fail :: "nat \<Rightarrow> event list \<Rightarrow> bool" where
  "all_routes_fail n evs = list_all (\<lambda>i. Fail i \<in> set evs) [0..<n]"

text \<open>
  Invariants of the race: the number of routes that are done, the routes that are done
  or aborted, what holds along every schedule, and what holds while no route succeeds
  and the timer has not fired.
\<close>

definition count_done :: "route_status list \<Rightarrow> nat" where
  "count_done xs = length (filter (\<lambda>s. s = Done) xs)"

definition covered :: "route_status list \<Rightarrow> bool list \<Rightarrow> bool" where
  "covered xs cs = (\<forall>i < length xs. xs ! i = Done \<or> cs ! i)"

definition race_inv :: "race \<Rightarrow> bool" where
  "race_inv r =
     (length (aborted r) = length (routes r)
      \<and> failures r \<le> count_done (routes r)
      \<and> (settled r \<longrightarrow> promise r \<noteq> None)
      \<and> (promise r \<noteq> None \<longrightarrow>
           \<not> globalTimer r
           \<and> covered (routes r) (aborted r)))"

definition failing_inv :: "race \<Rightarrow> bool" where
  "failing_inv r =
     (\<not> settled r
      \<and> failures r = count_done (routes r)
      \<and> promise r =
          (if failures r = length (routes r) \<and> 0 < length (routes r)
           then Some (Inl AllRoutesFailedError) else None)
      \<and> globalTimer r = (promise r = None))"

section \<open>Sample inputs\<close>

text \<open>
  A verse block with a name and no body, one with a name and a body and no link, a
  page, a browser in which every request succeeds, a browser whose direct request is
  blocked, a server without \<open>window\<close> whose request answers 404, and a store whose
  entry for a key is not JSON.
\<close>

definition block_without_body :: block where
  "block_without_body =
     \<lparr>nameElement = Some ''Gospel'', addressElement = None, contentElement = None\<rparr>"

definition block_without_link :: block where
  "block_without_link =
     \<lparr>nameElement = Some ''Alleluia'', addressElement = Some None,
      contentElement = Some [''R. Alleluia, alleluia.'']\<rparr>"

definition sample_document :: document where
  "sample_document =
     \<lparr>titleElement = Some ''Monday of the Third Week of Advent'',
      lectElement = Some ''Lectionary: 187'',
      verseBlocks = [block_without_link]\<rparr>"

definition sample_readings :: dailyReadings where
  "sample_readings =
     \<lparr>date = ''2025-12-15'', displayDate = ''December 15, 2025'',
      title = ''Monday of the Third Week of Advent'', season = ''Advent'',
      rank = ''Ferial'', lectionary = ''187'',
      readings = [\<lparr>name = ''Alleluia'', reference = [], referenceUrl = [],
                   reading_text = ''R. Alleluia, alleluia.''\<rparr>]\<rparr>"

definition browser_env :: env where
  "browser_env =
     \<lparr>has_window = True, has_localStorage = True,
      setItem_throws = (\<lambda>store key v. False), getItem_throws = (\<lambda>key. False),
      JSON_parse = (\<lambda>raw. None), JSON_stringify = (\<lambda>v. Some ''{}''),
      fetchUrl = (\<lambda>url. Inr ''<html>''),
      fetchViaProxies = (\<lambda>url ms. Inr ''<html>''),
      DOMParser = Some (\<lambda>html. sample_document),
      toISOString_date = (\<lambda>n. ''2025-12-15''),
      toLocaleDateString = (\<lambda>n. ''December 15, 2025'')\<rparr>"

definition empty_state :: state where
  "empty_state = \<lparr>cache = Map.empty, localStorage = Map.empty\<rparr>"

definition node_env_404 :: env where
  "node_env_404 =
     browser_env\<lparr>has_window := False, has_localStorage := False,
                 fetchUrl := (\<lambda>url. Inl (HttpError 404))\<rparr>"

definition browser_env_blocked :: env where
  "browser_env_blocked = browser_env\<lparr>fetchUrl := (\<lambda>url. Inl NetworkError)\<rparr>"

definition corrupt_state :: state where
  "corrupt_state =
     \<lparr>cache = Map.empty, localStorage = [storage_key ''121525'' \<mapsto> ''{oops'']\<rparr>"

section \<open>Properties of season and rank\<close>

text \<open>
  Claim C6. For every title \<open>t\<close>, \<open>extractSeason\<close> returns the first keyword, in the order
  Advent, Christmas, Lent, Easter, Pentecost, Ordinary Time, that occurs in the title
  with the same letter case; a non-empty title with none of them gives Ordinary Time and
  the empty title gives Unknown.
\<close>

theorem extractSeason_first_match:
  "extractSeason t = extractSeason_spec t"
  by (simp add: extractSeason_def extractSeason_spec_def season_keywords_def)

text \<open>
  Claim C7. For every title \<open>t\<close>, \<open>extractLiturgicalRank\<close> tests the lower-cased title
  against the tiers in priority order and the first matching tier gives the rank; with no
  match, and for the empty title, the rank is Ferial; the result is one of the four ranks.
\<close>

theorem extractLiturgicalRank_tiers:
  "extractLiturgicalRank t = extractRank_spec t
   \<and> extractLiturgicalRank [] = ''Ferial''
   \<and> extractLiturgicalRank t \<in> set ranks"
  by (simp add: extractLiturgicalRank_def extractRank_spec_def rank_tiers_def ranks_def
      toLowerCase_def Let_def)

section \<open>Properties of the calendar\<close>


lemma DayFromYear_mono: "y \<le> y' \<Longrightarrow> DayFromYear y \<le> DayFromYear y'"
proof (induction y' rule: int_ge_induct)
  case base
  show ?case by simp
next
  case (step i)
  then show ?case
    using DayFromYear_Suc [of i] by (simp add: leap_days_def split: if_splits)
qed

lemma leap_days_range: "0 \<le> leap_days y \<and> leap_days y \<le> 1"
  by (simp add: leap_days_def)

lemma year_down_min:
  "DayFromYear y \<le> n \<Longrightarrow> n < DayFromYear (y + 1) \<Longrightarrow> year_down n y0 = min y0 y"
proof (induction n y0 rule: year_down.induct)
  case (1 n y0)
  show ?case
  proof (cases "n < DayFromYear y0")
    case True
    with "1.prems" have "y < y0"
      using DayFromYear_mono [of y0 y] by linarith
    with True "1.IH" "1.prems" show ?thesis
      by (subst year_down.simps) simp
  next
    case False
    with "1.prems" have "y0 \<le> y"
      using DayFromYear_mono [of "y + 1" y0] by linarith
    with False show ?thesis
      by (subst year_down.simps) simp
  qed
qed

lemma year_up_max:
  "DayFromYear y \<le> n \<Longrightarrow> n < DayFromYear (y + 1) \<Longrightarrow> y1 \<le> y \<Longrightarrow> year_up n y1 = y"
proof (induction n y1 rule: year_up.induct)
  case (1 n y1)
  show ?case
  proof (cases "DayFromYear (y1 + 1) \<le> n")
    case True
    with "1.prems" have "y1 + 1 \<le> y"
      using DayFromYear_mono [of "y + 1" "y1 + 1"] by linarith
    with True "1.IH" "1.prems" show ?thesis
      by (subst year_up.simps) simp
  next
    case False
    with "1.prems" have "y \<le> y1"
      using DayFromYear_mono [of "y1 + 1" y] by linarith
    with False "1.prems" show ?thesis
      by (subst year_up.simps) simp
  qed
qed

lemma YearFromDay_unique:
  "DayFromYear y \<le> n \<Longrightarrow> n < DayFromYear (y + 1) \<Longrightarrow> YearFromDay n = y"
  by (simp add: YearFromDay_def year_down_min year_up_max)

lemma month_cases:
  fixes m :: int
  assumes "1 \<le> m" "m \<le> 12"
  shows "m = 1 \<or> m = 2 \<or> m = 3 \<or> m = 4 \<or> m = 5 \<or> m = 6 \<or> m = 7 \<or> m = 8 \<or> m = 9
      \<or> m = 10 \<or> m = 11 \<or> m = 12"
  using assms by arith

lemma civil_of_MakeDay:
  assumes m: "1 \<le> m" "m \<le> 12" and d: "1 \<le> d" "d \<le> days_in_month y m"
  shows "YearFromDay (MakeDay y (m - 1) d) = y"
    and "MonthFromDay (MakeDay y (m - 1) d) = m - 1"
    and "DateFromDay (MakeDay y (m - 1) d) = d"
proof -
  let ?L = "leap_days y"
  let ?n = "MakeDay y (m - 1) d"
  have L: "0 \<le> ?L" "?L \<le> 1"
    by (simp_all add: leap_days_def)
  have dm: "(m - 1) div 12 = 0" "(m - 1) mod 12 = m - 1"
    using m by simp_all
  have n: "?n = DayFromYear y + month_start ?L (m - 1) + d - 1"
    by (simp add: MakeDay_def Let_def dm)
  note mcases = month_cases [OF m]
  have within: "0 \<le> month_start ?L (m - 1) + d - 1 \<and> month_start ?L (m - 1) + d - 1 < 365 + ?L"
    using mcases d L by (elim disjE; simp add: month_start_def days_in_month_def)
  show y: "YearFromDay ?n = y"
    by (rule YearFromDay_unique) (use within n in \<open>simp_all add: DayFromYear_Suc\<close>)
  have dw: "DayWithinYear ?n = month_start ?L (m - 1) + d - 1"
    by (simp add: DayWithinYear_def y) (simp add: n)
  show mo: "MonthFromDay ?n = m - 1"
    unfolding MonthFromDay_def Let_def dw y
    using mcases d L by (elim disjE; simp add: month_start_def days_in_month_def)
  show "DateFromDay ?n = d"
    by (simp add: DateFromDay_def dw y mo)
qed

section \<open>Properties of the date codec\<close>

lemma digit_facts:
  assumes "is_digit c"
  shows "digit_char (digit_val c) = c" "digit_val c \<le> 9" "\<not> is_space c"
    "c \<noteq> CHR ''-''" "c \<noteq> CHR ''+''"
  using assms by (auto simp: is_digit_def digit_char_def digit_val_def is_space_def)

lemma digit_char_0: "digit_char 0 = CHR ''0''"
  by code_simp

lemma six_digits_expand:
  assumes "six_digits s"
  shows "s = [s ! 0, s ! 1, s ! 2, s ! 3, s ! 4, s ! 5]"
    and "is_digit (s ! 0)" "is_digit (s ! 1)" "is_digit (s ! 2)"
      "is_digit (s ! 3)" "is_digit (s ! 4)" "is_digit (s ! 5)"
proof -
  from assms have len: "length s = 6" and all: "list_all is_digit s"
    by (simp_all add: six_digits_def)
  from len show "s = [s ! 0, s ! 1, s ! 2, s ! 3, s ! 4, s ! 5]"
    by (auto simp: list_eq_iff_nth_eq less_Suc_eq numeral_eq_Suc)
  from all len show "is_digit (s ! 0)" "is_digit (s ! 1)" "is_digit (s ! 2)"
      "is_digit (s ! 3)" "is_digit (s ! 4)" "is_digit (s ! 5)"
    by (simp_all add: list_all_length)
qed

lemma parseInt_two_digits:
  assumes "is_digit a" "is_digit b"
  shows "parseInt [a, b] = Some (int (10 * digit_val a + digit_val b))"
  using digit_facts(3-5) [OF assms(1)] assms
  by (simp add: parseInt_def Let_def)

lemma parseInt_year:
  assumes "is_digit e" "is_digit f"
  shows "parseInt (''20'' @ [e, f]) = Some (2000 + int (10 * digit_val e + digit_val f))"
  using assms
  by (simp add: parseInt_def Let_def is_space_def is_digit_def digit_val_def)

lemma js_String_nat: "js_String (Some (int n)) = digits n"
  by (simp add: js_String_def)

lemma divmod_10:
  fixes a b :: nat
  assumes "b < 10"
  shows "(10 * a + b) div 10 = a" "(10 * a + b) mod 10 = b"
  using assms by simp_all

lemma digits_two:
  assumes "is_digit a" "is_digit b" "digit_val a \<noteq> 0"
  shows "digits (10 * digit_val a + digit_val b) = [a, b]"
proof -
  have b: "digit_val b < 10" and a: "digit_val a < 10"
    using digit_facts(2) [OF assms(1)] digit_facts(2) [OF assms(2)] by simp_all
  have ge: "\<not> 10 * digit_val a + digit_val b < 10"
    using assms(3) by simp
  have "digits (10 * digit_val a + digit_val b)
      = digits (digit_val a) @ [digit_char (digit_val b)]"
    by (subst digits.simps) (simp only: ge if_False divmod_10 [OF b])
  also have "digits (digit_val a) = [digit_char (digit_val a)]"
    by (subst digits.simps) (simp only: a if_True)
  finally show ?thesis
    by (simp add: digit_facts(1) assms)
qed

lemma pad_two_digits:
  assumes "is_digit a" "is_digit b"
  shows "padStart (js_String (Some (int (10 * digit_val a + digit_val b)))) 2 CHR ''0'' = [a, b]"
proof (cases "digit_val a = 0")
  case True
  then have a: "a = CHR ''0''"
    using digit_facts(1) [OF assms(1)] by (simp add: digit_char_0)
  have b: "digit_val b < 10"
    using digit_facts(2) [OF assms(2)] by simp
  have "digits (digit_val b) = [b]"
    by (subst digits.simps) (simp only: b if_True digit_facts(1) [OF assms(2)])
  with True a show ?thesis
    unfolding js_String_nat padStart_def by simp
next
  case False
  with assms have "digits (10 * digit_val a + digit_val b) = [a, b]"
    by (rule digits_two)
  then show ?thesis
    unfolding js_String_nat padStart_def by simp
qed

lemma year_last_two:
  assumes "is_digit e" "is_digit f"
  shows "slice_last (js_String (Some (2000 + int (10 * digit_val e + digit_val f)))) 2 = [e, f]"
proof -
  let ?yy = "10 * digit_val e + digit_val f"
  have e: "digit_val e < 10" and f: "digit_val f < 10"
    using digit_facts(2) [OF assms(1)] digit_facts(2) [OF assms(2)] by simp_all
  have n: "2000 + int ?yy = int (10 * (10 * 20 + digit_val e) + digit_val f)"
    by simp
  have ge: "\<not> 10 * (10 * 20 + digit_val e) + digit_val f < 10"
    "\<not> 10 * 20 + digit_val e < 10"
    by simp_all
  have "digits (10 * (10 * 20 + digit_val e) + digit_val f)
      = digits (10 * 20 + digit_val e) @ [digit_char (digit_val f)]"
    by (subst digits.simps) (simp only: ge if_False divmod_10 [OF f])
  also have "digits (10 * 20 + digit_val e) = digits 20 @ [digit_char (digit_val e)]"
    by (subst digits.simps) (simp only: ge if_False divmod_10 [OF e])
  finally have "digits (10 * (10 * 20 + digit_val e) + digit_val f) = digits 20 @ [e, f]"
    by (simp add: digit_facts(1) assms)
  moreover have "length (digits 20) = 2"
    by (simp add: digits.simps [of 20] digits.simps [of 2])
  ultimately show ?thesis
    unfolding n js_String_nat slice_last_def by simp
qed

lemma DayFromYear_bounds:
  assumes "1999 \<le> y" "y \<le> 2107"
  shows "10592 \<le> DayFromYear y" "DayFromYear y \<le> 50038"
proof -
  have "DayFromYear 1999 \<le> DayFromYear y" "DayFromYear y \<le> DayFromYear 2107"
    using assms by (simp_all add: DayFromYear_mono)
  then show "10592 \<le> DayFromYear y" "DayFromYear y \<le> 50038"
    by (simp_all add: DayFromYear_def)
qed

lemma month_start_bounds: "0 \<le> m \<Longrightarrow> 0 \<le> month_start (leap_days y) m \<and> month_start (leap_days y) m \<le> 335"
  by (simp add: month_start_def leap_days_def)

lemma parseDateString_six_digits:
  assumes "six_digits s"
  shows "parseDateString s = Inr (Some (MakeDay (key_year s) (key_month s - 1) (key_day s)))"
proof -
  note x = six_digits_expand [OF assms]
  let ?m = "key_month s" and ?d = "key_day s" and ?y = "key_year s"
  have sub: "substring s 0 2 = [s ! 0, s ! 1]" "substring s 2 4 = [s ! 2, s ! 3]"
    "substring s 4 6 = [s ! 4, s ! 5]"
    by (subst x(1), simp add: substring_def)+
  have pm: "parseInt (substring s 0 2) = Some ?m"
    and pd: "parseInt (substring s 2 4) = Some ?d"
    and py: "parseInt (''20'' @ substring s 4 6) = Some ?y"
    unfolding sub key_month_def key_day_def key_year_def
    using x(2-) by (simp_all only: parseInt_two_digits parseInt_year)
  have rm: "0 \<le> ?m" "?m \<le> 99" and rd: "0 \<le> ?d" "?d \<le> 99"
    and ry: "2000 \<le> ?y" "?y \<le> 2099"
    using x(2-) [THEN digit_facts(2)] by (simp_all add: key_month_def key_day_def key_year_def)
  let ?ym = "?y + (?m - 1) div 12"
  have "1999 \<le> ?ym" "?ym \<le> 2107"
    using rm ry by linarith+
  then have "10592 \<le> DayFromYear ?ym" "DayFromYear ?ym \<le> 50038"
    by (rule DayFromYear_bounds)+
  moreover have "0 \<le> month_start (leap_days ?ym) ((?m - 1) mod 12)"
    "month_start (leap_days ?ym) ((?m - 1) mod 12) \<le> 335"
    using month_start_bounds [of "(?m - 1) mod 12" ?ym] by simp_all
  ultimately have "0 \<le> MakeDay ?y (?m - 1) ?d" "MakeDay ?y (?m - 1) ?d \<le> 100000"
    using rd by (simp_all add: MakeDay_def Let_def)
  then have "new_Date (Some ?y) (Some (?m - 1)) (Some ?d) = Some (MakeDay ?y (?m - 1) ?d)"
    using ry by (simp add: new_Date_def Let_def)
  then show ?thesis
    unfolding parseDateString_def Let_def pm pd py option.map isNaN_getTime_def
    using assms by simp
qed

lemma formatDateForUrl_valid_key:
  assumes "valid_key k"
  shows "formatDateForUrl (Some (MakeDay (key_year k) (key_month k - 1) (key_day k))) = k"
proof -
  from assms have six: "six_digits k"
    and m: "1 \<le> key_month k" "key_month k \<le> 12"
    and d: "1 \<le> key_day k" "key_day k \<le> days_in_month (key_year k) (key_month k)"
    by (simp_all add: valid_key_def)
  note x = six_digits_expand [OF six]
  note c = civil_of_MakeDay [OF m d]
  have "formatDateForUrl (Some (MakeDay (key_year k) (key_month k - 1) (key_day k)))
      = [k ! 0, k ! 1] @ [k ! 2, k ! 3] @ [k ! 4, k ! 5]"
    unfolding formatDateForUrl_def Let_def getMonth_def getDate_def getFullYear_def
      option.map c
    using x(2-)
    by (simp add: key_month_def key_day_def key_year_def pad_two_digits year_last_two
        del: of_nat_add of_nat_mult)
  also have "\<dots> = k"
    using x(1) by simp
  finally show ?thesis .
qed

text \<open>
  Claim C1. \<open>parseDateString\<close> fails with \<open>FormatError\<close> on every string that is not
  six decimal digits. On six digits it never fails: the date constructor carries a day or
  month out of range over into the neighbouring months, so the test for an Invalid Date
  never fires, and February 30 of 2099 is accepted as the Date of 2 March 2099.
\<close>

theorem parseDateString_accepts_nonexistent_date:
  "parseDateString s =
     (if six_digits s
      then Inr (Some (MakeDay (key_year s) (key_month s - 1) (key_day s)))
      else Inl FormatError)
   \<and> parseDateString ''023099'' = Inr (Some 47177)
   \<and> getFullYear (Some 47177) = Some 2099
   \<and> getMonth (Some 47177) = Some 2
   \<and> getDate (Some 47177) = Some 2"
proof -
  have "parseDateString ''023099'' = Inr (Some 47177)"
    by code_simp
  moreover have "getFullYear (Some 47177) = Some 2099"
    by code_simp
  moreover have "getMonth (Some 47177) = Some 2"
    by code_simp
  moreover have "getDate (Some 47177) = Some 2"
    by code_simp
  ultimately show ?thesis
    by (simp add: parseDateString_six_digits) (simp add: parseDateString_def)
qed

text \<open>
  Claim C8. For every key \<open>K\<close> of an existing date (six digits, month 1 to 12, day
  within the month), decoding succeeds, encoding the decoded date gives \<open>K\<close> back, and
  decoding again gives the same date: \<open>decode (encode (decode K)) = decode K\<close>.
\<close>

theorem date_codec_round_trip:
  assumes "valid_key K"
  shows "\<exists>d. parseDateString K = Inr d \<and> formatDateForUrl d = K
    \<and> parseDateString (formatDateForUrl d) = parseDateString K"
proof -
  from assms have six: "six_digits K"
    by (simp add: valid_key_def)
  let ?d = "Some (MakeDay (key_year K) (key_month K - 1) (key_day K))"
  have "parseDateString K = Inr ?d"
    using six by (rule parseDateString_six_digits)
  moreover have "formatDateForUrl ?d = K"
    using assms by (rule formatDateForUrl_valid_key)
  ultimately show ?thesis
    by simp
qed

theorem date_codec_round_trip_witness:
  "valid_key ''121525''
   \<and> (\<exists>d. parseDateString ''121525'' = Inr d \<and> formatDateForUrl d = ''121525''
        \<and> parseDateString (formatDateForUrl d) = parseDateString ''121525'')"
proof -
  have v: "valid_key ''121525''"
    by code_simp
  from v date_codec_round_trip [OF v] show ?thesis
    by simp
qed

text \<open>
  Off the calendar the round trip can move the date by a century: \<open>"010000"\<close>, day 0 of
  January 2000, decodes to 31 December 1999, which encodes to \<open>"123199"\<close> and decodes to
  31 December 2099.
\<close>

lemma round_trip_off_calendar:
  "parseDateString ''010000'' = Inr (Some 10956)
   \<and> formatDateForUrl (Some 10956) = ''123199''
   \<and> parseDateString ''123199'' = Inr (Some 47481)"
proof -
  have "parseDateString ''010000'' = Inr (Some 10956)"
    by code_simp
  moreover have "formatDateForUrl (Some 10956) = ''123199''"
    by code_simp
  moreover have "parseDateString ''123199'' = Inr (Some 47481)"
    by code_simp
  ultimately show ?thesis
    by simp
qed

section \<open>Properties of the page parser\<close>

lemma collect_readings_map_filter: "collect_readings bs = List.map_filter parseReadingBlock bs"
  by (induction bs) (simp_all add: List.map_filter_simps split: option.splits)

text \<open>
  A verse block with a name label and no body is dropped, although it is not missing
  both.
\<close>

theorem parseReadingBlock_drops_block_with_name:
  "parseReadingBlock block_without_body = None
   \<and> nameElement block_without_body = Some ''Gospel''
   \<and> collect_readings [block_without_body] = []"
  by (simp add: parseReadingBlock_def block_without_body_def)

text \<open>
  Claim C3, as amended. A verse block is dropped from the output sequence exactly when
  it is missing its name label or its body; a block with a name and a body and no
  reference link is kept, with \<open>reference = ""\<close> and \<open>referenceUrl = ""\<close>; the
  output holds the kept blocks in document order.
\<close>

theorem parseReadingBlock_dropped_iff:
  "(parseReadingBlock b = None) = (nameElement b = None \<or> contentElement b = None)
   \<and> (nameElement b = Some n \<and> contentElement b = Some c \<and> referenceLink b = None \<longrightarrow>
        parseReadingBlock b =
          Some \<lparr>name = trim n, reference = [], referenceUrl = [],
                reading_text = extractTextContent c\<rparr>)
   \<and> collect_readings bs = List.map_filter parseReadingBlock bs"
  by (simp add: parseReadingBlock_def collect_readings_map_filter)

theorem parseReadingBlock_dropped_iff_witness:
  "nameElement block_without_link = Some ''Alleluia''
   \<and> contentElement block_without_link = Some [''R. Alleluia, alleluia.'']
   \<and> referenceLink block_without_link = None
   \<and> parseReadingBlock block_without_link =
        Some \<lparr>name = trim ''Alleluia'', reference = [], referenceUrl = [],
              reading_text = extractTextContent [''R. Alleluia, alleluia.'']\<rparr>"
  using parseReadingBlock_dropped_iff [of block_without_link "''Alleluia''"
      "[''R. Alleluia, alleluia.'']"]
  by (simp add: block_without_link_def referenceLink_def)

section \<open>Properties of the cache\<close>

lemma storageAvailable_cache: "cache (snd (storageAvailable e st)) = cache st"
  by (simp add: storageAvailable_def)

lemma readFromPersistentCache_cache: "cache (snd (readFromPersistentCache e st k)) = cache st"
  using storageAvailable_cache [of e st]
  by (auto simp: readFromPersistentCache_def split: prod.splits bool.splits option.splits)

lemma fetch_via_proxies_and_parse_failure:
  "fetch_via_proxies_and_parse e st k d url = (Inl err, st') \<Longrightarrow> st' = st"
  by (auto simp: fetch_via_proxies_and_parse_def Let_def split: sum.splits)

lemma fetch_and_parse_failure:
  "fetch_and_parse e st k d = (Inl err, st') \<Longrightarrow> st' = st"
  by (auto simp: fetch_and_parse_def Let_def split: sum.splits if_splits
      dest: fetch_via_proxies_and_parse_failure)

text \<open>
  Claim C9. When \<open>getReadings\<close> fails, whatever the argument and the cause (date
  validation, request, parsing), the in-memory cache is the one before the call.
\<close>

theorem getReadings_failure_keeps_cache:
  assumes "getReadings e st a = (Inl err, st')"
  shows "cache st' = cache st"
proof (cases "normalize_arg a")
  case (Inl x)
  with assms show ?thesis
    by (simp add: getReadings_def)
next
  case (Inr kd)
  obtain k d where kd: "kd = (k, d)"
    by (cases kd)
  show ?thesis
  proof (cases "cache st k")
    case (Some cached)
    with assms Inr kd show ?thesis
      by (simp add: getReadings_def)
  next
    case None
    obtain v st1 where r: "readFromPersistentCache e st k = (v, st1)"
      by (cases "readFromPersistentCache e st k")
    then have c1: "cache st1 = cache st"
      using readFromPersistentCache_cache [of e st k] by simp
    from assms Inr kd None r have "fetch_and_parse e st1 k d = (Inl err, st')"
      by (cases v) (simp_all add: getReadings_def)
    then have "st' = st1"
      by (rule fetch_and_parse_failure)
    with c1 show ?thesis
      by simp
  qed
qed

theorem getReadings_failure_keeps_cache_witness:
  "fst (getReadings node_env_404 empty_state (StringArg ''121525'')) = Inl (HttpError 404)
   \<and> cache (snd (getReadings node_env_404 empty_state (StringArg ''121525'')))
       = cache empty_state"
proof -
  let ?r = "getReadings node_env_404 empty_state (StringArg ''121525'')"
  have f: "fst ?r = Inl (HttpError 404)"
    by code_simp
  then have "?r = (Inl (HttpError 404), snd ?r)"
    by (simp add: prod_eq_iff)
  then have "cache (snd ?r) = cache empty_state"
    by (rule getReadings_failure_keeps_cache)
  with f show ?thesis
    by simp
qed

lemma writeToPersistentCache_cache: "cache (writeToPersistentCache e st k v) = cache st"
  using storageAvailable_cache [of e st]
  by (auto simp: writeToPersistentCache_def split: prod.splits bool.splits option.splits)

lemma fetch_and_parse_success:
  "fetch_and_parse e st k d = (Inr r, st') \<Longrightarrow> cache st' k = Some r"
  by (auto simp: fetch_and_parse_def fetch_via_proxies_and_parse_def Let_def
      writeToPersistentCache_cache split: sum.splits if_splits)

lemma getReadings_success_in_memory:
  assumes "normalize_arg a = Inr (k, d)" "getReadings e st a = (Inr r, st')"
  shows "cache st' k = Some r"
proof (cases "cache st k")
  case (Some cached)
  with assms show ?thesis
    by (simp add: getReadings_def)
next
  case None
  obtain v st1 where rd: "readFromPersistentCache e st k = (v, st1)"
    by (cases "readFromPersistentCache e st k")
  show ?thesis
  proof (cases v)
    case (PTruthy p)
    with assms None rd show ?thesis
      by (auto simp: getReadings_def)
  next
    case PNull
    with assms None rd have "fetch_and_parse e st1 k d = (Inr r, st')"
      by (simp add: getReadings_def)
    then show ?thesis
      by (rule fetch_and_parse_success)
  next
    case PFalsy
    with assms None rd have "fetch_and_parse e st1 k d = (Inr r, st')"
      by (simp add: getReadings_def)
    then show ?thesis
      by (rule fetch_and_parse_success)
  qed
qed

text \<open>
  Claim C5. After a miss in both tiers and a successful request and parse, the result is
  in the in-memory cache. The durable tier is written only on the path through the
  proxies: in a browser whose direct request succeeds the result is returned and cached
  in memory, and \<open>localStorage\<close> has no entry for the key; when the direct request
  is blocked and the proxies answer, the entry is written.
\<close>

theorem getReadings_direct_fetch_skips_durable_tier:
  "fst (getReadings browser_env empty_state (StringArg ''121525'')) = Inr sample_readings
   \<and> cache (snd (getReadings browser_env empty_state (StringArg ''121525''))) ''121525''
       = Some sample_readings
   \<and> localStorage (snd (getReadings browser_env empty_state (StringArg ''121525'')))
       (storage_key ''121525'') = None
   \<and> localStorage (snd (getReadings browser_env_blocked empty_state (StringArg ''121525'')))
       (storage_key ''121525'') = Some ''{}''"
proof -
  have "fst (getReadings browser_env empty_state (StringArg ''121525'')) = Inr sample_readings"
    by code_simp
  moreover have
    "cache (snd (getReadings browser_env empty_state (StringArg ''121525''))) ''121525''
       = Some sample_readings"
    by code_simp
  moreover have
    "localStorage (snd (getReadings browser_env empty_state (StringArg ''121525'')))
       (storage_key ''121525'') = None"
    by code_simp
  moreover have
    "localStorage (snd (getReadings browser_env_blocked empty_state (StringArg ''121525'')))
       (storage_key ''121525'') = Some ''{}''"
    by code_simp
  ultimately show ?thesis
    by simp
qed

lemma storage_key_not_probe: "storage_key k \<noteq> ''__cr_test__''"
  by (simp add: storage_key_def)

lemma storageAvailable_localStorage:
  "localStorage (snd (storageAvailable e st)) (storage_key k) = localStorage st (storage_key k)"
  by (simp add: storageAvailable_def storage_key_not_probe)

lemma readFromPersistentCache_unreadable:
  assumes "durable_unreadable e st k"
  shows "fst (readFromPersistentCache e st k) = PNull"
proof (cases "storageAvailable e st")
  case (Pair ok st1)
  have ls: "localStorage st1 (storage_key k) = localStorage st (storage_key k)"
    using storageAvailable_localStorage [of e st k] Pair by simp
  from assms Pair ls show ?thesis
    by (auto simp: readFromPersistentCache_def durable_unreadable_def
        split: bool.splits option.splits)
qed

text \<open>
  Claim C10. When the durable entry of a key cannot be read (the store throws or the
  stored text is not JSON), \<open>readFromPersistentCache\<close> returns \<open>null\<close>, and
  \<open>getReadings\<close> on a key that is not in memory goes on to fetch: its outcome is the
  outcome of the request and the parse.
\<close>

theorem durable_unreadable_is_miss:
  assumes "durable_unreadable e st k"
  shows "fst (readFromPersistentCache e st k) = PNull
    \<and> (normalize_arg a = Inr (k, d) \<and> cache st k = None \<longrightarrow>
         getReadings e st a = fetch_and_parse e (snd (readFromPersistentCache e st k)) k d)"
proof -
  have n: "fst (readFromPersistentCache e st k) = PNull"
    using assms by (rule readFromPersistentCache_unreadable)
  obtain v st1 where rd: "readFromPersistentCache e st k = (v, st1)"
    by (cases "readFromPersistentCache e st k")
  with n have "v = PNull"
    by simp
  with rd n show ?thesis
    by (simp add: getReadings_def)
qed

theorem durable_unreadable_is_miss_witness:
  "durable_unreadable browser_env corrupt_state ''121525''
   \<and> fst (readFromPersistentCache browser_env corrupt_state ''121525'') = PNull
   \<and> normalize_arg (StringArg ''121525'') = Inr (''121525'', Some 20437)
   \<and> cache corrupt_state ''121525'' = None
   \<and> getReadings browser_env corrupt_state (StringArg ''121525'')
       = fetch_and_parse browser_env
           (snd (readFromPersistentCache browser_env corrupt_state ''121525''))
           ''121525'' (Some 20437)
   \<and> fst (getReadings browser_env corrupt_state (StringArg ''121525'')) = Inr sample_readings"
proof -
  have u: "durable_unreadable browser_env corrupt_state ''121525''"
    by (simp add: durable_unreadable_def browser_env_def corrupt_state_def)
  have a: "normalize_arg (StringArg ''121525'') = Inr (''121525'', Some 20437)"
    by code_simp
  have c: "cache corrupt_state ''121525'' = None"
    by (simp add: corrupt_state_def)
  have r: "fst (getReadings browser_env corrupt_state (StringArg ''121525'')) = Inr sample_readings"
    by code_simp
  from durable_unreadable_is_miss [OF u, of "StringArg ''121525''" "Some 20437"] u a c r
  show ?thesis
    by simp
qed

section \<open>Properties of the race\<close>

lemma count_done_le: "count_done xs \<le> length xs"
  by (simp add: count_done_def)

lemma count_done_update_Done:
  "i < length xs \<Longrightarrow> xs ! i \<noteq> Done \<Longrightarrow> count_done (xs[i := Done]) = Suc (count_done xs)"
proof (induction xs arbitrary: i)
  case Nil
  then show ?case by simp
next
  case (Cons x xs)
  then show ?case
    by (cases i) (simp_all add: count_done_def)
qed

lemma count_done_update_other:
  "i < length xs \<Longrightarrow> xs ! i \<noteq> Done \<Longrightarrow> v \<noteq> Done \<Longrightarrow> count_done (xs[i := v]) = count_done xs"
proof (induction xs arbitrary: i)
  case Nil
  then show ?case by simp
next
  case (Cons x xs)
  then show ?case
    by (cases i) (simp_all add: count_done_def)
qed

lemma count_done_less: "i < length xs \<Longrightarrow> xs ! i \<noteq> Done \<Longrightarrow> count_done xs < length xs"
  unfolding count_done_def by (rule length_filter_less [of "xs ! i"]) simp_all

lemma count_done_full:
  assumes "count_done xs = length xs" "i < length xs"
  shows "xs ! i = Done"
proof (rule ccontr)
  assume "xs ! i \<noteq> Done"
  with assms(2) have "count_done xs < length xs"
    by (rule count_done_less)
  with assms(1) show False
    by simp
qed

lemma count_done_all: "(\<And>i. i < length xs \<Longrightarrow> xs ! i = Done) \<Longrightarrow> count_done xs = length xs"
proof -
  assume a: "\<And>i. i < length xs \<Longrightarrow> xs ! i = Done"
  have "\<forall>x \<in> set xs. x = Done"
    using a by (auto simp: in_set_conv_nth)
  then have "filter (\<lambda>s. s = Done) xs = xs"
    by (simp add: filter_id_conv)
  then show ?thesis
    by (simp add: count_done_def)
qed

lemma length_abort_others: "length (abort_others i cs) = length cs"
  by (simp add: abort_others_def)

lemma abort_others_nth: "j < length cs \<Longrightarrow> j \<noteq> i \<Longrightarrow> abort_others i cs ! j"
  by (simp add: abort_others_def)

lemma length_routes_step: "length (routes (race_step r ev)) = length (routes r)"
  by (cases ev) (simp_all add: Let_def settle_def)

lemma length_routes_run: "length (routes (run r evs)) = length (routes r)"
  by (induction evs arbitrary: r) (simp_all add: length_routes_step)

lemma promise_stable_step: "promise r = Some v \<Longrightarrow> promise (race_step r ev) = Some v"
  by (cases ev) (simp_all add: Let_def settle_def)

lemma promise_stable: "promise r = Some v \<Longrightarrow> promise (run r evs) = Some v"
  by (induction evs arbitrary: r) (simp_all add: promise_stable_step)

lemma run_append: "run r (xs @ ys) = run (run r xs) ys"
  by (induction xs arbitrary: r) simp_all

lemma feasible_append: "feasible r (xs @ ys) = (feasible r xs \<and> feasible (run r xs) ys)"
  by (induction xs arbitrary: r) simp_all

lemma race_inv_init: "race_inv (fetchViaProxies_init n)"
  by (simp add: race_inv_def fetchViaProxies_init_def)

lemma fetchViaProxies_start_four:
  "fetchViaProxies_start encodeURIComponent url = fetchViaProxies_init 4"
proof -
  have "length (buildProxyUrls encodeURIComponent url) = 4"
    by (simp add: buildProxyUrls_def proxyCandidates_def)
  then show ?thesis
    by (simp only: fetchViaProxies_start_def)
qed

lemma covered_update:
  assumes "covered xs cs" "v = Done \<or> xs ! i \<noteq> Done"
  shows "covered (xs[i := v]) cs"
  unfolding covered_def
proof (intro allI impI)
  fix j
  assume j: "j < length (xs[i := v])"
  show "xs[i := v] ! j = Done \<or> cs ! j"
  proof (cases "j = i")
    case True
    with j assms show ?thesis
      by (auto simp: covered_def)
  next
    case False
    with j assms(1) show ?thesis
      by (simp add: covered_def)
  qed
qed

lemma covered_all_done: "(\<And>j. j < length xs \<Longrightarrow> xs ! j = Done) \<Longrightarrow> covered xs cs"
  by (simp add: covered_def)

lemma covered_all_aborted: "length cs = length xs \<Longrightarrow> covered xs (replicate (length cs) True)"
  by (simp add: covered_def)

lemma covered_abort_others:
  assumes "length cs = length xs" "i < length xs"
  shows "covered (xs[i := Done]) (abort_others i cs)"
  unfolding covered_def
proof (intro allI impI)
  fix j
  assume "j < length (xs[i := Done])"
  with assms show "xs[i := Done] ! j = Done \<or> abort_others i cs ! j"
    by (cases "j = i") (simp_all add: abort_others_nth)
qed

lemma race_inv_step:
  assumes inv: "race_inv r" and en: "enabled r ev"
  shows "race_inv (race_step r ev)"
proof (cases ev)
  case (Start i)
  with en have i: "i < length (routes r)" "routes r ! i = Waiting"
    by simp_all
  then have nd: "routes r ! i \<noteq> Done"
    by simp
  show ?thesis
  proof (cases "settled r")
    case True
    have "count_done ((routes r)[i := Done]) = Suc (count_done (routes r))"
      using i(1) nd by (rule count_done_update_Done)
    with inv True Start show ?thesis
      by (simp add: race_inv_def covered_update)
  next
    case False
    have "count_done ((routes r)[i := InFlight]) = count_done (routes r)"
      using i(1) nd by (rule count_done_update_other) simp
    with inv False Start nd show ?thesis
      by (simp add: race_inv_def covered_update)
  qed
next
  case (Succeed i body)
  with en have i: "i < length (routes r)" "routes r ! i = InFlight"
    by simp_all
  then have nd: "routes r ! i \<noteq> Done"
    by simp
  have c: "count_done ((routes r)[i := Done]) = Suc (count_done (routes r))"
    using i(1) nd by (rule count_done_update_Done)
  show ?thesis
  proof (cases "settled r")
    case True
    with inv Succeed c show ?thesis
      by (simp add: race_inv_def covered_update)
  next
    case False
    from inv have len: "length (aborted r) = length (routes r)"
      by (simp add: race_inv_def)
    have "covered ((routes r)[i := Done]) (abort_others i (aborted r))"
      using len i(1) by (rule covered_abort_others)
    with inv False Succeed c show ?thesis
      by (simp add: race_inv_def settle_def length_abort_others covered_update Let_def)
  qed
next
  case (Fail i)
  with en have i: "i < length (routes r)" "routes r ! i = InFlight"
    by simp_all
  then have nd: "routes r ! i \<noteq> Done"
    by simp
  have c: "count_done ((routes r)[i := Done]) = Suc (count_done (routes r))"
    using i(1) nd by (rule count_done_update_Done)
  have le: "count_done ((routes r)[i := Done]) \<le> length (routes r)"
    using count_done_le [of "(routes r)[i := Done]"] by simp
  show ?thesis
  proof (cases "Suc (failures r) = length (routes r) \<and> \<not> settled r")
    case True
    with inv c le have full: "count_done ((routes r)[i := Done]) = length ((routes r)[i := Done])"
      by (simp add: race_inv_def)
    have "covered ((routes r)[i := Done]) (aborted r)"
      by (rule covered_all_done) (rule count_done_full [OF full])
    with inv True Fail c show ?thesis
      by (simp add: race_inv_def settle_def Let_def)
  next
    case False
    with inv Fail c show ?thesis
      by (auto simp: race_inv_def Let_def covered_update)
  qed
next
  case Deadline
  from inv have len: "length (aborted r) = length (routes r)"
    by (simp add: race_inv_def)
  have "covered (routes r) (replicate (length (aborted r)) True)"
    using len by (rule covered_all_aborted)
  with inv Deadline show ?thesis
    by (simp add: race_inv_def settle_def Let_def)
qed

lemma race_inv_run: "race_inv r \<Longrightarrow> feasible r evs \<Longrightarrow> race_inv (run r evs)"
  by (induction evs arbitrary: r) (simp_all add: race_inv_step)

lemma succeed_settles:
  assumes inv: "race_inv r" and en: "enabled r (Succeed k body)"
  shows "promise (race_step r (Succeed k body)) = Some (Inr body)"
proof -
  from en have k: "k < length (routes r)" "routes r ! k = InFlight" "\<not> aborted r ! k"
    by simp_all
  have pending: "promise r = None"
  proof (rule ccontr)
    assume "promise r \<noteq> None"
    with inv have "covered (routes r) (aborted r)"
      by (simp add: race_inv_def)
    with k(1) have "routes r ! k = Done \<or> aborted r ! k"
      by (simp add: covered_def)
    with k show False
      by simp
  qed
  with inv have "\<not> settled r"
    by (auto simp: race_inv_def)
  with pending show ?thesis
    by (simp add: settle_def Let_def)
qed

text \<open>
  Claim C2. In every race of at least two routes in which a route succeeds, the promise
  is resolved with the body of that route when its success arrives, and whatever arrives
  afterwards (the failures of the other routes among it) leaves that outcome as it is.
  A schedule the platform can deliver holds at most one success: the success aborts the
  other routes.
\<close>

theorem fetchViaProxies_single_success:
  assumes "2 \<le> n"
    and "feasible (fetchViaProxies_init n) (pre @ Succeed k body # post)"
  shows "promise (run (fetchViaProxies_init n) (pre @ [Succeed k body])) = Some (Inr body)
    \<and> promise (run (fetchViaProxies_init n) (pre @ Succeed k body # post)) = Some (Inr body)"
proof -
  let ?r = "run (fetchViaProxies_init n) pre"
  from assms(2) have f: "feasible (fetchViaProxies_init n) pre" and en: "enabled ?r (Succeed k body)"
    by (simp_all add: feasible_append)
  have "race_inv ?r"
    using race_inv_init f by (rule race_inv_run)
  then have s: "promise (race_step ?r (Succeed k body)) = Some (Inr body)"
    using en by (rule succeed_settles)
  then have "promise (run (race_step ?r (Succeed k body)) post) = Some (Inr body)"
    by (rule promise_stable)
  with s show ?thesis
    by (simp add: run_append)
qed

theorem fetchViaProxies_single_success_witness:
  "(2::nat) \<le> 2
   \<and> feasible (fetchViaProxies_init 2) ([Start 0, Start 1, Fail 0] @ Succeed 1 ''body'' # [])
   \<and> feasible (fetchViaProxies_init 2) ([Start 0, Start 1] @ Succeed 1 ''body'' # [Fail 0])
   \<and> promise (run (fetchViaProxies_init 2) [Start 0, Start 1, Fail 0, Succeed 1 ''body''])
        = Some (Inr ''body'')
   \<and> promise (run (fetchViaProxies_init 2) [Start 0, Start 1, Succeed 1 ''body'', Fail 0])
        = Some (Inr ''body'')"
proof -
  have n: "(2::nat) \<le> 2"
    by simp
  have f1: "feasible (fetchViaProxies_init 2) ([Start 0, Start 1, Fail 0] @ Succeed 1 ''body'' # [])"
    by (simp add: fetchViaProxies_init_def numeral_2_eq_2)
  have f2: "feasible (fetchViaProxies_init 2) ([Start 0, Start 1] @ Succeed 1 ''body'' # [Fail 0])"
    by (simp add: fetchViaProxies_init_def numeral_2_eq_2 Let_def settle_def abort_others_def)
  from fetchViaProxies_single_success [OF n f1] fetchViaProxies_single_success [OF n f2] f1 f2
  show ?thesis
    by simp
qed

lemma failing_inv_init: "failing_inv (fetchViaProxies_init n)"
  by (auto simp: failing_inv_def fetchViaProxies_init_def count_done_def)

lemma failing_inv_step:
  assumes inv: "failing_inv r" and en: "enabled r ev"
    and ev: "\<not> is_Succeed ev" "ev \<noteq> Deadline"
  shows "failing_inv (race_step r ev)"
proof (cases ev)
  case (Start i)
  with en have i: "i < length (routes r)" "routes r ! i \<noteq> Done"
    by simp_all
  have "count_done ((routes r)[i := InFlight]) = count_done (routes r)"
    using i by (rule count_done_update_other) simp
  with inv Start show ?thesis
    by (simp add: failing_inv_def)
next
  case (Fail i)
  with en have i: "i < length (routes r)" "routes r ! i \<noteq> Done"
    by simp_all
  have c: "count_done ((routes r)[i := Done]) = Suc (count_done (routes r))"
    using i by (rule count_done_update_Done)
  have "count_done (routes r) < length (routes r)"
    using i by (rule count_done_less)
  with inv have "promise r = None" "failures r < length (routes r)"
    by (simp_all add: failing_inv_def)
  with inv Fail c i(1) show ?thesis
    by (auto simp: failing_inv_def settle_def Let_def)
next
  case (Succeed i body)
  with ev show ?thesis by simp
next
  case Deadline
  with ev show ?thesis by simp
qed

lemma failing_inv_run:
  "failing_inv r \<Longrightarrow> feasible r evs \<Longrightarrow> only_failures evs \<Longrightarrow> failing_inv (run r evs)"
  by (induction evs arbitrary: r) (simp_all add: only_failures_def failing_inv_step)

lemma done_stable_step:
  assumes "enabled r ev" "i < length (routes r)" "routes r ! i = Done"
  shows "routes (race_step r ev) ! i = Done"
  using assms by (cases ev) (auto simp: Let_def settle_def nth_list_update)

lemma done_stable:
  "feasible r evs \<Longrightarrow> i < length (routes r) \<Longrightarrow> routes r ! i = Done
   \<Longrightarrow> routes (run r evs) ! i = Done"
  by (induction evs arbitrary: r) (simp_all add: done_stable_step length_routes_step)

lemma fail_makes_done:
  "feasible r evs \<Longrightarrow> Fail i \<in> set evs \<Longrightarrow> routes (run r evs) ! i = Done"
proof (induction evs arbitrary: r)
  case Nil
  then show ?case by simp
next
  case (Cons ev evs)
  show ?case
  proof (cases "ev = Fail i")
    case True
    with Cons.prems have i: "i < length (routes r)"
      by simp
    then have "routes (race_step r (Fail i)) ! i = Done"
      by (simp add: Let_def settle_def)
    moreover have "i < length (routes (race_step r (Fail i)))"
      using i by (simp only: length_routes_step)
    ultimately show ?thesis
      using Cons.prems True by (simp add: done_stable)
  next
    case False
    with Cons show ?thesis
      by simp
  qed
qed

lemma all_fail_rejects:
  assumes n: "0 < n" and f: "feasible (fetchViaProxies_init n) evs"
    and o: "only_failures evs" and a: "all_routes_fail n evs"
  shows "promise (run (fetchViaProxies_init n) evs) = Some (Inl AllRoutesFailedError)"
proof -
  let ?r = "run (fetchViaProxies_init n) evs"
  have len: "length (routes ?r) = n"
    by (simp add: length_routes_run fetchViaProxies_init_def)
  have "routes ?r ! i = Done" if "i < length (routes ?r)" for i
  proof -
    from that len a have "Fail i \<in> set evs"
      by (simp add: all_routes_fail_def list_all_iff)
    with f show ?thesis
      by (rule fail_makes_done)
  qed
  then have "count_done (routes ?r) = length (routes ?r)"
    by (rule count_done_all)
  moreover have "failing_inv ?r"
    using failing_inv_init f o by (rule failing_inv_run)
  ultimately show ?thesis
    using n len by (simp add: failing_inv_def)
qed

lemma deadline_rejects:
  assumes inv: "race_inv r" and en: "enabled r Deadline"
  shows "promise (race_step r Deadline) = Some (Inl TimeoutError)"
    and "aborted (race_step r Deadline) = replicate (length (routes r)) True"
proof -
  from en have t: "globalTimer r"
    by simp
  with inv have p: "promise r = None"
    by (auto simp: race_inv_def)
  with inv have s: "\<not> settled r"
    by (auto simp: race_inv_def)
  from inv have len: "length (aborted r) = length (routes r)"
    by (simp add: race_inv_def)
  from p s show "promise (race_step r Deadline) = Some (Inl TimeoutError)"
    by (simp add: settle_def Let_def)
  from p s len show "aborted (race_step r Deadline) = replicate (length (routes r)) True"
    by (simp add: settle_def Let_def)
qed

lemma not_done_step:
  assumes inv: "failing_inv r" and en: "enabled r ev"
    and ev: "\<not> is_Succeed ev" "ev \<noteq> Deadline" "ev \<noteq> Fail i"
    and i: "routes r ! i \<noteq> Done"
  shows "routes (race_step r ev) ! i \<noteq> Done"
proof (cases ev)
  case (Start j)
  from inv have "\<not> settled r"
    by (simp add: failing_inv_def)
  with Start en i show ?thesis
    by (cases "j = i") simp_all
next
  case (Fail j)
  with ev have "j \<noteq> i"
    by simp
  with Fail i show ?thesis
    by (simp add: Let_def settle_def)
next
  case (Succeed j body)
  with ev show ?thesis by simp
next
  case Deadline
  with ev show ?thesis by simp
qed

lemma not_done_run:
  "failing_inv r \<Longrightarrow> feasible r evs \<Longrightarrow> only_failures evs \<Longrightarrow> Fail i \<notin> set evs
   \<Longrightarrow> routes r ! i \<noteq> Done \<Longrightarrow> routes (run r evs) ! i \<noteq> Done"
proof (induction evs arbitrary: r)
  case Nil
  then show ?case by simp
next
  case (Cons ev evs)
  from Cons.prems have ev: "\<not> is_Succeed ev" "ev \<noteq> Deadline" "ev \<noteq> Fail i"
    and en: "enabled r ev"
    by (auto simp: only_failures_def)
  have "failing_inv (race_step r ev)"
    using Cons.prems(1) en ev(1,2) by (rule failing_inv_step)
  moreover have "routes (race_step r ev) ! i \<noteq> Done"
    using Cons.prems(1) en ev Cons.prems(5) by (rule not_done_step)
  ultimately show ?case
    using Cons.IH [of "race_step r ev"] Cons.prems by (simp add: only_failures_def)
qed

lemma outstanding_route:
  assumes "\<not> all_routes_fail n evs"
  shows "\<exists>i < n. Fail i \<notin> set evs"
  using assms by (auto simp: all_routes_fail_def list_all_iff)

lemma deadline_armed_while_outstanding:
  assumes f: "feasible (fetchViaProxies_init n) evs"
    and o: "only_failures evs" and a: "\<not> all_routes_fail n evs"
  shows "promise (run (fetchViaProxies_init n) evs) = None"
    and "globalTimer (run (fetchViaProxies_init n) evs)"
proof -
  let ?r = "run (fetchViaProxies_init n) evs"
  from a obtain i where i: "i < n" "Fail i \<notin> set evs"
    using outstanding_route by blast
  have inv: "failing_inv ?r"
    using failing_inv_init f o by (rule failing_inv_run)
  have len: "length (routes ?r) = n"
    by (simp add: length_routes_run fetchViaProxies_init_def)
  have "routes (fetchViaProxies_init n) ! i \<noteq> Done"
    using i(1) by (simp add: fetchViaProxies_init_def)
  with failing_inv_init f o i(2) have "routes ?r ! i \<noteq> Done"
    by (rule not_done_run)
  moreover have "i < length (routes ?r)"
    using i(1) len by simp
  ultimately have "count_done (routes ?r) < length (routes ?r)"
    by (rule count_done_less [rotated])
  with inv show p: "promise ?r = None"
    by (simp add: failing_inv_def)
  with inv show "globalTimer ?r"
    by (simp add: failing_inv_def)
qed

lemma timer_cleared_when_all_failed:
  assumes "0 < n" "feasible (fetchViaProxies_init n) evs" "only_failures evs"
    "all_routes_fail n evs"
  shows "\<not> globalTimer (run (fetchViaProxies_init n) evs)"
proof -
  have "promise (run (fetchViaProxies_init n) evs) = Some (Inl AllRoutesFailedError)"
    using assms by (rule all_fail_rejects)
  moreover have "failing_inv (run (fetchViaProxies_init n) evs)"
    using failing_inv_init assms(2,3) by (rule failing_inv_run)
  ultimately show ?thesis
    by (simp add: failing_inv_def)
qed

text \<open>
  Claim C4. In every race of at least one route, along a schedule in which no route has
  succeeded and the timer has not fired: when every route has failed, the promise is
  rejected with \<open>AllRoutesFailedError\<close> and the timer is cleared, so the deadline
  cannot fire any more; while a route has not failed, the promise is pending and the timer
  is still set, and when it fires all routes are aborted and the promise is rejected with
  \<open>TimeoutError\<close>. In both cases whatever arrives afterwards leaves that outcome as it
  is, so the outcome is one of the two errors and never both. Last, whenever the timer
  does fire, the outcome is \<open>TimeoutError\<close>.
\<close>

theorem fetchViaProxies_failure_outcomes:
  assumes "0 < n" and "feasible (fetchViaProxies_init n) evs"
  shows "(only_failures evs \<and> all_routes_fail n evs \<longrightarrow>
            promise (run (fetchViaProxies_init n) (evs @ post)) = Some (Inl AllRoutesFailedError)
            \<and> \<not> enabled (run (fetchViaProxies_init n) evs) Deadline)
    \<and> (only_failures evs \<and> \<not> all_routes_fail n evs \<longrightarrow>
            promise (run (fetchViaProxies_init n) evs) = None
            \<and> enabled (run (fetchViaProxies_init n) evs) Deadline
            \<and> promise (run (fetchViaProxies_init n) (evs @ Deadline # post))
                = Some (Inl TimeoutError)
            \<and> aborted (run (fetchViaProxies_init n) (evs @ [Deadline])) = replicate n True)
    \<and> (evs = pre @ [Deadline] \<longrightarrow>
            promise (run (fetchViaProxies_init n) (evs @ post)) = Some (Inl TimeoutError)
            \<and> aborted (run (fetchViaProxies_init n) evs) = replicate n True)"
proof (intro conjI impI)
  assume h: "only_failures evs \<and> all_routes_fail n evs"
  with assms have "promise (run (fetchViaProxies_init n) evs) = Some (Inl AllRoutesFailedError)"
    by (simp add: all_fail_rejects)
  then show "promise (run (fetchViaProxies_init n) (evs @ post)) = Some (Inl AllRoutesFailedError)"
    by (simp add: run_append promise_stable)
  from assms h show "\<not> enabled (run (fetchViaProxies_init n) evs) Deadline"
    by (simp add: timer_cleared_when_all_failed)
next
  let ?r = "run (fetchViaProxies_init n) evs"
  assume h: "only_failures evs \<and> \<not> all_routes_fail n evs"
  with assms(2) show p: "promise ?r = None"
    by (simp add: deadline_armed_while_outstanding)
  from assms(2) h show en: "enabled ?r Deadline"
    by (simp add: deadline_armed_while_outstanding)
  have inv: "race_inv ?r"
    using race_inv_init assms(2) by (rule race_inv_run)
  have "promise (race_step ?r Deadline) = Some (Inl TimeoutError)"
    using inv en by (rule deadline_rejects)
  then have "promise (run (race_step ?r Deadline) post) = Some (Inl TimeoutError)"
    by (rule promise_stable)
  then show "promise (run (fetchViaProxies_init n) (evs @ Deadline # post))
      = Some (Inl TimeoutError)"
    by (simp add: run_append)
  have "aborted (race_step ?r Deadline) = replicate (length (routes ?r)) True"
    using inv en by (rule deadline_rejects)
  then show "aborted (run (fetchViaProxies_init n) (evs @ [Deadline])) = replicate n True"
    by (simp add: run_append length_routes_run fetchViaProxies_init_def)
next
  let ?r = "run (fetchViaProxies_init n) pre"
  assume e: "evs = pre @ [Deadline]"
  with assms(2) have f: "feasible (fetchViaProxies_init n) pre" and en: "enabled ?r Deadline"
    by (simp_all add: feasible_append)
  have inv: "race_inv ?r"
    using race_inv_init f by (rule race_inv_run)
  have "promise (race_step ?r Deadline) = Some (Inl TimeoutError)"
    using inv en by (rule deadline_rejects)
  with e have "promise (run (fetchViaProxies_init n) evs) = Some (Inl TimeoutError)"
    by (simp add: run_append)
  then show "promise (run (fetchViaProxies_init n) (evs @ post)) = Some (Inl TimeoutError)"
    by (simp add: run_append promise_stable)
  have "aborted (race_step ?r Deadline) = replicate (length (routes ?r)) True"
    using inv en by (rule deadline_rejects)
  with e show "aborted (run (fetchViaProxies_init n) evs) = replicate n True"
    by (simp add: run_append length_routes_run fetchViaProxies_init_def)
qed

theorem fetchViaProxies_failure_outcomes_witness:
  "(0::nat) < 2
   \<and> feasible (fetchViaProxies_init 2) [Start 0, Start 1, Fail 0, Fail 1]
   \<and> only_failures [Start 0, Start 1, Fail 0, Fail 1]
   \<and> all_routes_fail 2 [Start 0, Start 1, Fail 0, Fail 1]
   \<and> promise (run (fetchViaProxies_init 2) [Start 0, Start 1, Fail 0, Fail 1])
        = Some (Inl AllRoutesFailedError)
   \<and> \<not> enabled (run (fetchViaProxies_init 2) [Start 0, Start 1, Fail 0, Fail 1]) Deadline
   \<and> feasible (fetchViaProxies_init 2) [Start 0, Start 1, Fail 0]
   \<and> only_failures [Start 0, Start 1, Fail 0]
   \<and> \<not> all_routes_fail 2 [Start 0, Start 1, Fail 0]
   \<and> promise (run (fetchViaProxies_init 2) [Start 0, Start 1, Fail 0]) = None
   \<and> enabled (run (fetchViaProxies_init 2) [Start 0, Start 1, Fail 0]) Deadline
   \<and> promise (run (fetchViaProxies_init 2) [Start 0, Start 1, Fail 0, Deadline, Fail 1])
        = Some (Inl TimeoutError)
   \<and> aborted (run (fetchViaProxies_init 2) [Start 0, Start 1, Fail 0, Deadline])
        = replicate 2 True
   \<and> feasible (fetchViaProxies_init 2) [Start 0, Start 1, Deadline]
   \<and> promise (run (fetchViaProxies_init 2) [Start 0, Start 1, Deadline, Fail 0, Fail 1])
        = Some (Inl TimeoutError)
   \<and> aborted (run (fetchViaProxies_init 2) [Start 0, Start 1, Deadline]) = replicate 2 True"
proof -
  have n: "(0::nat) < 2"
    by simp
  have f1: "feasible (fetchViaProxies_init 2) [Start 0, Start 1, Fail 0, Fail 1]"
    by code_simp
  have o1: "only_failures [Start 0, Start 1, Fail 0, Fail 1]"
    by (simp add: only_failures_def)
  have a1: "all_routes_fail 2 [Start 0, Start 1, Fail 0, Fail 1]"
    by code_simp
  have f2: "feasible (fetchViaProxies_init 2) [Start 0, Start 1, Fail 0]"
    by code_simp
  have o2: "only_failures [Start 0, Start 1, Fail 0]"
    by (simp add: only_failures_def)
  have a2: "\<not> all_routes_fail 2 [Start 0, Start 1, Fail 0]"
    by code_simp
  have f3: "feasible (fetchViaProxies_init 2) [Start 0, Start 1, Deadline]"
    by code_simp
  have e: "[Start 0, Start 1, Deadline] = [Start 0, Start 1] @ [Deadline]"
    by simp
  note t1 = fetchViaProxies_failure_outcomes [OF n f1, where post = "[]", THEN conjunct1, THEN mp,
      OF conjI [OF o1 a1]]
  note t2 = fetchViaProxies_failure_outcomes [OF n f2, where post = "[Fail 1]",
      THEN conjunct2, THEN conjunct1, THEN mp, OF conjI [OF o2 a2]]
  note t3 = fetchViaProxies_failure_outcomes [OF n f3,
      where pre = "[Start 0, Start 1]" and post = "[Fail 0, Fail 1]",
      THEN conjunct2, THEN conjunct2, THEN mp, OF e]
  note u1 = t1 [unfolded append_Nil2]
  note u2 = t2 [unfolded append.simps]
  note u3 = t3 [unfolded append.simps]
  note p1 = u1 [THEN conjunct1] and q1 = u1 [THEN conjunct2]
  note p2 = u2 [THEN conjunct1] and q2 = u2 [THEN conjunct2, THEN conjunct1]
    and r2 = u2 [THEN conjunct2, THEN conjunct2, THEN conjunct1]
    and s2 = u2 [THEN conjunct2, THEN conjunct2, THEN conjunct2]
  note p3 = u3 [THEN conjunct1] and q3 = u3 [THEN conjunct2]
  from n f1 o1 a1 p1 q1 f2 o2 a2 p2 q2 r2 s2 f3 p3 q3 show ?thesis
    by (intro conjI)
qed

end
